theory Spec2Isabelle
  imports Main "HOL-Library.Word" "HOL-Library.Monad_Syntax"
begin

unbundle bit_operations_syntax

section \<open>Data model of cppbmpfile.hpp\<close>

text \<open>
  Machine integers are words of the width the source declares. \<open>size_t\<close> is taken as
  64 bits wide (an LP64 target); its arithmetic wraps modulo \<open>2 ^ 64\<close>.
  A result of type \<open>'a option\<close> is \<open>None\<close> where the C++ has no defined result:
  an \<open>assert(false)\<close> is reached, or memory outside the caller's buffer or outside the
  colour table is accessed.
\<close>

type_synonym byte = "8 word"
type_synonym size_t = "64 word"

datatype pixel_format = Mono8 | BGR8 | BGRA8 | pixel_format_invalid

datatype orientation_type = top_down | bottom_up | orientation_invalid

record image_properties =
  width :: "32 word"
  height :: "32 word"
  line_padding :: size_t
  pixel_format :: pixel_format
  orientation :: orientation_type

text \<open>The default member initialisers of \<open>struct image_properties\<close>.\<close>

definition image_properties_default :: image_properties where
  "image_properties_default =
     \<lparr>width = 0, height = 0, line_padding = 0,
      pixel_format = pixel_format_invalid, orientation = bottom_up\<rparr>"

datatype operation_result_type =
    ok
  | file_not_found
  | file_open_for_writing_error
  | file_read_error
  | file_write_error
  | buffer_too_small
  | not_a_bmp_file
  | unsupported_compression
  | unsupported_bit_per_pixel
  | unsupported_use_of_color_table
  | too_large_color_table
  | corrupt
  | null_argument
  | invalid_argument
  | result_invalid

text \<open>\<open>operation_result::operator bool\<close>.\<close>

definition is_ok :: "operation_result_type \<Rightarrow> bool" where
  "is_ok r = (r = ok)"

text \<open>
  \<open>struct bmp_header\<close>, packed, 54 bytes. The fields carry the prefix \<open>hdr_\<close>
  because \<open>width\<close> and \<open>height\<close> are fields of \<open>image_properties\<close> too.
  The fields declared \<open>int32_t\<close> are read as signed with \<open>sint\<close> and compared
  with \<open><s\<close>.
\<close>

record bmp_header =
  hdr_type :: "16 word"
  hdr_size :: "32 word"
  hdr_reserved1 :: "16 word"
  hdr_reserved2 :: "16 word"
  hdr_offset :: "32 word"
  hdr_bitmap_info_header_size :: "32 word"
  hdr_width :: "32 word"
  hdr_height :: "32 word"
  hdr_num_planes :: "16 word"
  hdr_bits_per_pixel :: "16 word"
  hdr_compression :: "32 word"
  hdr_image_size_bytes :: "32 word"
  hdr_x_resolution :: "32 word"
  hdr_y_resolution :: "32 word"
  hdr_num_colors :: "32 word"
  hdr_important_colors :: "32 word"

record color_table_entry =
  b :: byte
  g :: byte
  r :: byte
  reserved :: byte

section \<open>Geometry\<close>

text \<open>
  C's \<open>abs\<close> on \<open>int\<close>. At \<open>INT_MIN\<close> the C standard leaves the result undefined;
  the model takes the two's-complement negation, which is \<open>INT_MIN\<close> again.
\<close>

definition abs_i32 :: "32 word \<Rightarrow> 32 word" where
  "abs_i32 x = (if x <s 0 then - x else x)"

text \<open>The conversion of an \<open>int\<close> operand to \<open>size_t\<close> (sign extension).\<close>

definition int_to_size_t :: "32 word \<Rightarrow> size_t" where
  "int_to_size_t x = scast x"

definition byte_per_pixel_in_file :: "16 word \<Rightarrow> size_t option" where
  "byte_per_pixel_in_file bits_per_pixel =
     (if bits_per_pixel = 8 then Some 1
      else if bits_per_pixel = 24 then Some 3
      else if bits_per_pixel = 32 then Some 4
      else None)"

text \<open>\<open>determine_stride(uint16_t bits_per_pixel, int32_t width)\<close>.\<close>

definition determine_stride_bpp :: "16 word \<Rightarrow> 32 word \<Rightarrow> size_t option" where
  "determine_stride_bpp bits_per_pixel w =
     do {
       bpp \<leftarrow> byte_per_pixel_in_file bits_per_pixel;
       let stride = bpp * int_to_size_t (abs_i32 w);
       Some (if stride mod 4 = 0 then stride else stride + (4 - stride mod 4))
     }"

definition determine_line_padding :: "16 word \<Rightarrow> 32 word \<Rightarrow> size_t option" where
  "determine_line_padding bits_per_pixel w =
     do {
       bpp \<leftarrow> byte_per_pixel_in_file bits_per_pixel;
       let stride = bpp * int_to_size_t (abs_i32 w);
       Some (if stride mod 4 = 0 then 0 else 4 - stride mod 4)
     }"

text \<open>\<open>determine_stride(const image_properties&)\<close>.\<close>

definition determine_stride_props :: "image_properties \<Rightarrow> size_t option" where
  "determine_stride_props p =
     do {
       byte_per_pixel \<leftarrow>
         (if pixel_format p = Mono8 then Some 1
          else if pixel_format p = BGR8 then Some 3
          else if pixel_format p = BGRA8 then Some 4
          else None);
       Some (ucast (width p) * byte_per_pixel + line_padding p)
     }"

text \<open>
  \<open>compute_buffer_size\<close> takes its argument by non-const reference, so the model
  returns the argument after the call beside the size.
\<close>

definition compute_buffer_size :: "image_properties \<Rightarrow> (size_t \<times> image_properties) option" where
  "compute_buffer_size the_image_properties =
     (if \<not> (height the_image_properties = 0
             \<or> width the_image_properties = 0
             \<or> pixel_format the_image_properties = pixel_format_invalid)
      then do {
        stride \<leftarrow> determine_stride_props the_image_properties;
        Some (stride * ucast (height the_image_properties), the_image_properties)
      }
      else Some (0, the_image_properties))"

section \<open>Files and streams\<close>

text \<open>
  The collaborator the code consumes is a file system with \<open>std::ifstream\<close> and
  \<open>std::ofstream\<close>. A file is its byte sequence. \<open>io_limit\<close> models a failing
  device: \<open>Some n\<close> lets a stream complete \<open>n\<close> operations (reads, writes, seeks)
  and fails every later one; \<open>None\<close> is a device that never fails.
  A null \<open>filename\<close> pointer is \<open>None :: string option\<close>.
\<close>

record file_system =
  files :: "string \<Rightarrow> byte list option"
  writable :: "string \<Rightarrow> bool"
  io_limit :: "nat option"

record ifstream =
  in_is_open :: bool
  in_data :: "byte list"
  in_pos :: nat
  in_failed :: bool
  in_ops_left :: "nat option"

record ofstream =
  out_is_open :: bool
  out_data :: "byte list"
  out_failed :: bool
  out_ops_left :: "nat option"

definition device_fails :: "nat option \<Rightarrow> bool" where
  "device_fails ops = (ops = Some 0)"

definition device_step :: "nat option \<Rightarrow> nat option" where
  "device_step ops = map_option (\<lambda>n. n - 1) ops"

text \<open>\<open>std::ifstream file(filename, std::ios::binary)\<close>: a missing file leaves the
  stream closed with its fail bit set.\<close>

definition ifstream_open :: "file_system \<Rightarrow> string \<Rightarrow> ifstream" where
  "ifstream_open fs name =
     (case files fs name of
        None \<Rightarrow> \<lparr>in_is_open = False, in_data = [], in_pos = 0, in_failed = True,
                 in_ops_left = io_limit fs\<rparr>
      | Some bytes \<Rightarrow> \<lparr>in_is_open = True, in_data = bytes, in_pos = 0, in_failed = False,
                       in_ops_left = io_limit fs\<rparr>)"

text \<open>
  \<open>istream::read\<close>: hands over the bytes it could extract (all \<open>n\<close>, or fewer at the
  end of the file, which sets the fail bit) and the stream afterwards. \<open>gcount()\<close>
  is the length of the bytes handed over.
\<close>

definition istream_read :: "nat \<Rightarrow> ifstream \<Rightarrow> byte list \<times> ifstream" where
  "istream_read n s =
     (if in_failed s then ([], s)
      else if device_fails (in_ops_left s) then ([], s\<lparr>in_failed := True\<rparr>)
      else let got = take n (drop (in_pos s) (in_data s))
           in (got, s\<lparr>in_pos := in_pos s + length got,
                       in_failed := length got < n,
                       in_ops_left := device_step (in_ops_left s)\<rparr>))"

text \<open>\<open>seekg(pos)\<close> and \<open>seekg(off, std::ios_base::cur)\<close>. Seeking behind the end
  of a file succeeds; only the device can make a seek fail.\<close>

definition istream_seekg :: "nat \<Rightarrow> ifstream \<Rightarrow> ifstream" where
  "istream_seekg p s =
     (if in_failed s then s
      else if device_fails (in_ops_left s) then s\<lparr>in_failed := True\<rparr>
      else s\<lparr>in_pos := p, in_ops_left := device_step (in_ops_left s)\<rparr>)"

definition istream_seekg_cur :: "nat \<Rightarrow> ifstream \<Rightarrow> ifstream" where
  "istream_seekg_cur off s =
     (if in_failed s then s
      else if device_fails (in_ops_left s) then s\<lparr>in_failed := True\<rparr>
      else s\<lparr>in_pos := in_pos s + off, in_ops_left := device_step (in_ops_left s)\<rparr>)"

text \<open>\<open>std::ofstream file(filename, std::ios::binary)\<close> creates or truncates.\<close>

definition ofstream_open :: "file_system \<Rightarrow> string \<Rightarrow> ofstream" where
  "ofstream_open fs name =
     (if writable fs name
      then \<lparr>out_is_open = True, out_data = [], out_failed = False, out_ops_left = io_limit fs\<rparr>
      else \<lparr>out_is_open = False, out_data = [], out_failed = True, out_ops_left = io_limit fs\<rparr>)"

definition ostream_write :: "byte list \<Rightarrow> ofstream \<Rightarrow> ofstream" where
  "ostream_write bytes s =
     (if out_failed s then s
      else if device_fails (out_ops_left s) then s\<lparr>out_failed := True\<rparr>
      else s\<lparr>out_data := out_data s @ bytes, out_ops_left := device_step (out_ops_left s)\<rparr>)"

text \<open>The file system once the output stream is closed: what was written is the file.\<close>

definition ofstream_close :: "file_system \<Rightarrow> string \<Rightarrow> ofstream \<Rightarrow> file_system" where
  "ofstream_close fs name s =
     (if out_is_open s then fs\<lparr>files := (files fs)(name \<mapsto> out_data s)\<rparr> else fs)"

section \<open>Memory\<close>

text \<open>
  The caller's buffer is the list of the bytes allocated at the pointer. An access outside
  it has no defined result. \<open>overlay new old\<close> is memory \<open>old\<close> after \<open>new\<close> was
  copied to its start.
\<close>

definition buffer_store :: "byte list \<Rightarrow> nat \<Rightarrow> byte list \<Rightarrow> byte list option" where
  "buffer_store buf off bytes =
     (if off + length bytes \<le> length buf
      then Some (take off buf @ bytes @ drop (off + length bytes) buf)
      else None)"

definition buffer_fetch :: "byte list \<Rightarrow> nat \<Rightarrow> nat \<Rightarrow> byte list option" where
  "buffer_fetch buf off n =
     (if off + n \<le> length buf then Some (take n (drop off buf)) else None)"

definition overlay :: "'a list \<Rightarrow> 'a list \<Rightarrow> 'a list" where
  "overlay new old = take (length old) (new @ drop (length new) old)"

section \<open>The header on the wire\<close>

text \<open>Little-endian fields, as the packed struct lies in memory on the hosts the
  library is written for.\<close>

definition le16 :: "16 word \<Rightarrow> byte list" where
  "le16 w = [ucast w, ucast (drop_bit 8 w)]"

definition le32 :: "32 word \<Rightarrow> byte list" where
  "le32 w = [ucast w, ucast (drop_bit 8 w), ucast (drop_bit 16 w), ucast (drop_bit 24 w)]"

definition rd16 :: "byte list \<Rightarrow> nat \<Rightarrow> 16 word" where
  "rd16 bs off = ucast (bs ! off) OR push_bit 8 (ucast (bs ! (off + 1)))"

definition rd32 :: "byte list \<Rightarrow> nat \<Rightarrow> 32 word" where
  "rd32 bs off =
     ucast (bs ! off) OR push_bit 8 (ucast (bs ! (off + 1)))
       OR push_bit 16 (ucast (bs ! (off + 2))) OR push_bit 24 (ucast (bs ! (off + 3)))"

definition bmp_header_bytes :: "bmp_header \<Rightarrow> byte list" where
  "bmp_header_bytes h =
     le16 (hdr_type h) @ le32 (hdr_size h) @ le16 (hdr_reserved1 h) @ le16 (hdr_reserved2 h)
     @ le32 (hdr_offset h) @ le32 (hdr_bitmap_info_header_size h)
     @ le32 (hdr_width h) @ le32 (hdr_height h)
     @ le16 (hdr_num_planes h) @ le16 (hdr_bits_per_pixel h)
     @ le32 (hdr_compression h) @ le32 (hdr_image_size_bytes h)
     @ le32 (hdr_x_resolution h) @ le32 (hdr_y_resolution h)
     @ le32 (hdr_num_colors h) @ le32 (hdr_important_colors h)"

definition parse_bmp_header :: "byte list \<Rightarrow> bmp_header" where
  "parse_bmp_header bs =
     \<lparr>hdr_type = rd16 bs 0, hdr_size = rd32 bs 2,
      hdr_reserved1 = rd16 bs 6, hdr_reserved2 = rd16 bs 8,
      hdr_offset = rd32 bs 10, hdr_bitmap_info_header_size = rd32 bs 14,
      hdr_width = rd32 bs 18, hdr_height = rd32 bs 22,
      hdr_num_planes = rd16 bs 26, hdr_bits_per_pixel = rd16 bs 28,
      hdr_compression = rd32 bs 30, hdr_image_size_bytes = rd32 bs 34,
      hdr_x_resolution = rd32 bs 38, hdr_y_resolution = rd32 bs 42,
      hdr_num_colors = rd32 bs 46, hdr_important_colors = rd32 bs 50\<rparr>"

text \<open>\<open>sizeof(bmp_header)\<close> and the value of \<open>bmp_header header = {}\<close>.\<close>

definition sizeof_bmp_header :: nat where
  "sizeof_bmp_header = 54"

definition bmp_header_zero :: bmp_header where
  "bmp_header_zero =
     \<lparr>hdr_type = 0, hdr_size = 0, hdr_reserved1 = 0, hdr_reserved2 = 0, hdr_offset = 0,
      hdr_bitmap_info_header_size = 0, hdr_width = 0, hdr_height = 0, hdr_num_planes = 0,
      hdr_bits_per_pixel = 0, hdr_compression = 0, hdr_image_size_bytes = 0,
      hdr_x_resolution = 0, hdr_y_resolution = 0, hdr_num_colors = 0,
      hdr_important_colors = 0\<rparr>"

section \<open>Header codec\<close>

text \<open>The chain of checks of \<open>load_and_check_header\<close> on the header read.\<close>

definition check_header :: "bmp_header \<Rightarrow> operation_result_type option" where
  "check_header header =
     (if hdr_type header \<noteq> 0x4D42 then Some not_a_bmp_file
      else if hdr_bitmap_info_header_size header < 40 then Some corrupt
      else if hdr_offset header < of_nat sizeof_bmp_header then Some corrupt
      else if hdr_height header = 0 \<or> hdr_width header \<le>s 0 then Some corrupt
      else if \<not> (hdr_bits_per_pixel header = 1 \<or> hdr_bits_per_pixel header = 4
                  \<or> hdr_bits_per_pixel header = 8 \<or> hdr_bits_per_pixel header = 16
                  \<or> hdr_bits_per_pixel header = 24 \<or> hdr_bits_per_pixel header = 32)
        then Some corrupt
      else if hdr_compression header \<noteq> 0 then Some unsupported_compression
      else if \<not> (hdr_bits_per_pixel header = 8 \<or> hdr_bits_per_pixel header = 24
                  \<or> hdr_bits_per_pixel header = 32)
        then Some unsupported_bit_per_pixel
      else if (hdr_bits_per_pixel header = 24 \<or> hdr_bits_per_pixel header = 32)
              \<and> (hdr_num_colors header \<noteq> 0 \<or> hdr_important_colors header \<noteq> 0)
        then Some unsupported_use_of_color_table
      else if hdr_bits_per_pixel header = 8
              \<and> (hdr_num_colors header > 256 \<or> hdr_important_colors header > 256)
        then Some too_large_color_table
      else do {
        stride \<leftarrow> determine_stride_bpp (hdr_bits_per_pixel header) (hdr_width header);
        let image_data_size = stride * int_to_size_t (abs_i32 (hdr_height header));
        Some (if \<not> (hdr_image_size_bytes header = 0
                      \<or> ucast (hdr_image_size_bytes header) = image_data_size)
              then corrupt else ok)
      })"

definition load_and_check_header ::
  "ifstream \<Rightarrow> bmp_header \<Rightarrow> (operation_result_type \<times> bmp_header \<times> ifstream) option" where
  "load_and_check_header stream header_out =
     (let (bytes, stream1) = istream_read sizeof_bmp_header stream;
          header = parse_bmp_header (overlay bytes (bmp_header_bytes header_out))
      in if in_failed stream1 then Some (not_a_bmp_file, header, stream1)
         else do {
           result \<leftarrow> check_header header;
           Some (result, header, stream1)
         })"

section \<open>Colour table\<close>

definition color_table_entry_zero :: color_table_entry where
  "color_table_entry_zero = \<lparr>b = 0, g = 0, r = 0, reserved = 0\<rparr>"

definition entry_bytes :: "color_table_entry \<Rightarrow> byte list" where
  "entry_bytes e = [b e, g e, r e, reserved e]"

fun entries_of_bytes :: "byte list \<Rightarrow> color_table_entry list" where
  "entries_of_bytes (x0 # x1 # x2 # x3 # rest) =
     \<lparr>b = x0, g = x1, r = x2, reserved = x3\<rparr> # entries_of_bytes rest"
| "entries_of_bytes _ = []"

definition color_table_bytes :: "color_table_entry list \<Rightarrow> byte list" where
  "color_table_bytes table = concat (map entry_bytes table)"

text \<open>\<open>std::vector::resize\<close>: new entries are value-initialised.\<close>

definition resize_table :: "nat \<Rightarrow> color_table_entry list \<Rightarrow> color_table_entry list" where
  "resize_table n table = take n table @ replicate (n - length table) color_table_entry_zero"

definition load_color_table ::
  "ifstream \<Rightarrow> bmp_header \<Rightarrow> color_table_entry list
     \<Rightarrow> operation_result_type \<times> color_table_entry list \<times> ifstream" where
  "load_color_table stream header color_table_out =
     (let stream1 = istream_seekg (unat (hdr_bitmap_info_header_size header + 14)) stream
      in if in_failed stream1 then (file_read_error, color_table_out, stream1)
         else
           let table1 =
                 (if hdr_num_colors header \<noteq> 0
                    then resize_table (unat (hdr_num_colors header)) color_table_out
                  else if hdr_num_colors header = 0 \<and> hdr_bits_per_pixel header = 1
                    then resize_table 1 color_table_out
                  else if hdr_num_colors header = 0 \<and> hdr_bits_per_pixel header = 4
                    then resize_table 16 color_table_out
                  else if hdr_num_colors header = 0 \<and> hdr_bits_per_pixel header = 8
                    then resize_table 256 color_table_out
                  else color_table_out)
           in if length table1 \<noteq> 0
              then
                let size_of_color_table_bytes = length table1 * 4;
                    (bytes, stream2) = istream_read size_of_color_table_bytes stream1;
                    table2 = entries_of_bytes (overlay bytes (color_table_bytes table1))
                in if in_failed stream2 then (file_read_error, table2, stream2)
                   else (ok, table2, stream2)
              else (unsupported_use_of_color_table, table1, stream1))"

text \<open>The counter \<open>i\<close> of \<open>check_is_linear_mono8\<close> is a \<open>uint8_t\<close> and wraps.\<close>

fun check_is_linear_mono8_from :: "byte \<Rightarrow> color_table_entry list \<Rightarrow> bool" where
  "check_is_linear_mono8_from i [] = True"
| "check_is_linear_mono8_from i (entry # rest) =
     (if \<not> (b entry = i \<and> g entry = i \<and> r entry = i) then False
      else check_is_linear_mono8_from (i + 1) rest)"

definition check_is_linear_mono8 :: "color_table_entry list \<Rightarrow> bool" where
  "check_is_linear_mono8 color_table = check_is_linear_mono8_from 0 color_table"

fun check_is_mono8 :: "color_table_entry list \<Rightarrow> bool" where
  "check_is_mono8 [] = True"
| "check_is_mono8 (entry # rest) =
     (if \<not> (r entry = g entry \<and> r entry = b entry) then False else check_is_mono8 rest)"

section \<open>Image properties of a file\<close>

definition determine_image_properties ::
  "bmp_header \<Rightarrow> color_table_entry list \<Rightarrow> image_properties \<Rightarrow> image_properties option" where
  "determine_image_properties header color_table_out the_image_properties =
     do {
       let p1 = the_image_properties\<lparr>height := abs_i32 (hdr_height header)\<rparr>;
       let p2 = p1\<lparr>width := abs_i32 (hdr_width header)\<rparr>;
       p3 \<leftarrow>
         (if hdr_bits_per_pixel header \<le> 8
            then Some (p2\<lparr>pixel_format :=
                           (if check_is_mono8 color_table_out then Mono8 else BGR8)\<rparr>)
          else if hdr_bits_per_pixel header = 24 then Some (p2\<lparr>pixel_format := BGR8\<rparr>)
          else if hdr_bits_per_pixel header = 32 then Some (p2\<lparr>pixel_format := BGRA8\<rparr>)
          else None);
       let p4 = p3\<lparr>orientation := (if hdr_height header <s 0 then top_down else bottom_up)\<rparr>;
       padding \<leftarrow> determine_line_padding (hdr_bits_per_pixel header) (hdr_width header);
       Some (p4\<lparr>line_padding := padding\<rparr>)
     }"

text \<open>
  \<open>load_image_properties\<close>. The result carries the four objects the source passes by
  reference: the stream, the header, the colour table and the properties.
\<close>

definition load_image_properties ::
  "ifstream \<Rightarrow> bmp_header \<Rightarrow> color_table_entry list \<Rightarrow> image_properties
     \<Rightarrow> (operation_result_type \<times> ifstream \<times> bmp_header \<times> color_table_entry list
          \<times> image_properties) option" where
  "load_image_properties stream header color_table_out the_image_properties =
     do {
       (result1, header1, stream1) \<leftarrow>
         (if \<not> in_is_open stream then Some (file_not_found, header, stream)
          else load_and_check_header stream header);
       let (result2, table2, stream2) =
         (if is_ok result1 \<and> hdr_bits_per_pixel header1 = 8
          then load_color_table stream1 header1 color_table_out
          else (result1, color_table_out, stream1));
       if is_ok result2
       then do {
         props \<leftarrow> determine_image_properties header1 table2 the_image_properties;
         Some (result2, stream2, header1, table2, props)
       }
       else Some (result2, stream2, header1, table2, image_properties_default)
     }"

text \<open>The overload \<open>load(filename, the_image_properties)\<close>.\<close>

definition load_properties ::
  "file_system \<Rightarrow> string option \<Rightarrow> image_properties
     \<Rightarrow> (operation_result_type \<times> image_properties) option" where
  "load_properties fs filename the_image_properties =
     (case filename of
        None \<Rightarrow> Some (null_argument, the_image_properties)
      | Some name \<Rightarrow>
          do {
            (result, file, header, color_table, props) \<leftarrow>
              load_image_properties (ifstream_open fs name) bmp_header_zero []
                the_image_properties;
            Some (result, props)
          })"

section \<open>Pixel transfer\<close>

text \<open>
  A \<open>for\<close> loop over the lines with a \<open>break\<close>: the body hands back the state and,
  when it breaks, the result it has assigned. \<open>result\<close> is the result variable on
  entry, which stays when no iteration breaks.
\<close>

fun for_lines ::
  "(nat \<Rightarrow> 's \<Rightarrow> ('s \<times> operation_result_type option) option) \<Rightarrow> nat list
     \<Rightarrow> operation_result_type \<Rightarrow> 's \<Rightarrow> (operation_result_type \<times> 's) option" where
  "for_lines body [] result st = Some (result, st)"
| "for_lines body (line # lines) result st =
     (case body line st of
        None \<Rightarrow> None
      | Some (st', None) \<Rightarrow> for_lines body lines result st'
      | Some (st', Some e) \<Rightarrow> Some (e, st'))"

text \<open>
  The offset of a line in the buffer, the same conditional in all four loops:
  \<open>line * stride_in_buffer\<close> when the buffer's orientation is the file's, else
  \<open>(the_image_properties.height - line - 1) * stride_in_buffer\<close>, the difference in
  \<open>uint32_t\<close> and the product in \<open>size_t\<close>. A line counter of type \<open>int32_t\<close>
  is never negative, so both its conversions agree with \<open>of_nat\<close>.
\<close>

definition buffer_row_offset :: "bool \<Rightarrow> 32 word \<Rightarrow> nat \<Rightarrow> size_t \<Rightarrow> size_t" where
  "buffer_row_offset same_orientation h line stride_in_buffer =
     (if same_orientation then of_nat line * stride_in_buffer
      else ucast (h - of_nat line - 1) * stride_in_buffer)"

text \<open>The bound \<open>column < abs(header.width)\<close> or \<open>line < abs(header.height)\<close> of a
  loop whose counter is an \<open>int32_t\<close> starting at 0.\<close>

definition int_loop_count :: "32 word \<Rightarrow> nat" where
  "int_loop_count bound = nat (sint bound)"

text \<open>The skip over the padding of a line in the file (first and second loop).\<close>

definition skip_line_padding ::
  "size_t \<Rightarrow> ifstream \<Rightarrow> ifstream \<times> operation_result_type option" where
  "skip_line_padding line_padding_in_file file =
     (if line_padding_in_file \<noteq> 0
      then let file1 = istream_seekg_cur (unat line_padding_in_file) file
           in if in_failed file1 then (file1, Some file_write_error) else (file1, None)
      else (file, None))"

text \<open>One line of the loop for files of more than 8 bits per pixel.\<close>

definition load_line_direct ::
  "bool \<Rightarrow> 32 word \<Rightarrow> size_t \<Rightarrow> size_t \<Rightarrow> size_t \<Rightarrow> nat \<Rightarrow> byte list \<times> ifstream
     \<Rightarrow> ((byte list \<times> ifstream) \<times> operation_result_type option) option" where
  "load_line_direct same_orientation h stride_in_file stride_in_buffer line_padding_in_file
       line st =
     (let (buf, file) = st;
          target = unat (buffer_row_offset same_orientation h line stride_in_buffer);
          (bytes, file1) = istream_read (unat (stride_in_file - line_padding_in_file)) file
      in do {
        buf1 \<leftarrow> buffer_store buf target bytes;
        if in_failed file1 then Some ((buf1, file1), Some file_read_error)
        else let (file2, e) = skip_line_padding line_padding_in_file file1
             in Some ((buf1, file2), e)
      })"

text \<open>\<open>color_table[i]\<close>, undefined behind the end of the vector.\<close>

definition color_table_at :: "color_table_entry list \<Rightarrow> byte \<Rightarrow> color_table_entry option" where
  "color_table_at color_table i =
     (if unat i < length color_table then Some (color_table ! unat i) else None)"

fun map_option_list :: "('a \<Rightarrow> 'b option) \<Rightarrow> 'a list \<Rightarrow> 'b list option" where
  "map_option_list f [] = Some []"
| "map_option_list f (x # xs) =
     (case f x of None \<Rightarrow> None
      | Some y \<Rightarrow> (case map_option_list f xs of None \<Rightarrow> None | Some ys \<Rightarrow> Some (y # ys)))"

text \<open>One line of the loop for the target Mono8, with the lookup through the blue
  channel when the table is not linear.\<close>

definition load_line_mono8 ::
  "bool \<Rightarrow> bmp_header \<Rightarrow> color_table_entry list \<Rightarrow> bool \<Rightarrow> 32 word \<Rightarrow> size_t \<Rightarrow> size_t
     \<Rightarrow> size_t \<Rightarrow> nat \<Rightarrow> byte list \<times> ifstream
     \<Rightarrow> ((byte list \<times> ifstream) \<times> operation_result_type option) option" where
  "load_line_mono8 linear_lut header color_table same_orientation h stride_in_file
       stride_in_buffer line_padding_in_file line st =
     (let (buf, file) = st;
          target = unat (buffer_row_offset same_orientation h line stride_in_buffer);
          (bytes, file1) = istream_read (unat (stride_in_file - line_padding_in_file)) file
      in do {
        buf1 \<leftarrow> buffer_store buf target bytes;
        if in_failed file1 then Some ((buf1, file1), Some file_read_error)
        else do {
          buf2 \<leftarrow>
            (if \<not> linear_lut
             then do {
               indices \<leftarrow> buffer_fetch buf1 target (int_loop_count (abs_i32 (hdr_width header)));
               entries \<leftarrow> map_option_list (color_table_at color_table) indices;
               buffer_store buf1 target (map b entries)
             }
             else Some buf1);
          let (file2, e) = skip_line_padding line_padding_in_file file1;
          Some ((buf2, file2), e)
        }
      })"

text \<open>One line of the loop that expands an 8-bit file through the table to BGR8.
  The line is read with its padding into \<open>stride_buffer\<close>.\<close>

definition load_line_indexed ::
  "bmp_header \<Rightarrow> color_table_entry list \<Rightarrow> bool \<Rightarrow> 32 word \<Rightarrow> size_t \<Rightarrow> size_t
     \<Rightarrow> nat \<Rightarrow> byte list \<times> ifstream
     \<Rightarrow> ((byte list \<times> ifstream) \<times> operation_result_type option) option" where
  "load_line_indexed header color_table same_orientation h stride_in_file stride_in_buffer
       line st =
     (let (buf, file) = st;
          (bytes, file1) = istream_read (unat stride_in_file) file
      in if length bytes \<noteq> unat stride_in_file
         then Some ((buf, file1), Some file_read_error)
         else do {
           let target = unat (buffer_row_offset same_orientation h line stride_in_buffer);
           indices \<leftarrow> buffer_fetch bytes 0 (int_loop_count (abs_i32 (hdr_width header)));
           entries \<leftarrow> map_option_list (color_table_at color_table) indices;
           buf1 \<leftarrow> buffer_store buf target (concat (map (\<lambda>entry. [b entry, g entry, r entry]) entries));
           Some ((buf1, file1), None)
         })"

text \<open>The dispatch of \<open>load\<close> over the three loops, after the seek to the pixel data.\<close>

definition load_pixels ::
  "bmp_header \<Rightarrow> color_table_entry list \<Rightarrow> image_properties \<Rightarrow> orientation_type
     \<Rightarrow> size_t \<Rightarrow> size_t \<Rightarrow> size_t \<Rightarrow> byte list \<Rightarrow> ifstream
     \<Rightarrow> (operation_result_type \<times> byte list \<times> ifstream) option" where
  "load_pixels header color_table the_image_properties orientation_in_file stride_in_file
       stride_in_buffer line_padding_in_file buf file =
     (let same_orientation = (orientation the_image_properties = orientation_in_file);
          h = height the_image_properties
      in if hdr_bits_per_pixel header > 8
            \<and> (pixel_format the_image_properties = BGR8
                \<or> pixel_format the_image_properties = BGRA8)
         then for_lines
                (load_line_direct same_orientation h stride_in_file stride_in_buffer
                   line_padding_in_file)
                [0 ..< unat h] ok (buf, file)
         else if pixel_format the_image_properties = Mono8
         then for_lines
                (load_line_mono8 (check_is_linear_mono8 color_table) header color_table
                   same_orientation h stride_in_file stride_in_buffer line_padding_in_file)
                [0 ..< int_loop_count (abs_i32 (hdr_height header))] ok (buf, file)
         else if pixel_format the_image_properties = BGR8 \<and> hdr_bits_per_pixel header = 8
         then for_lines
                (load_line_indexed header color_table same_orientation h stride_in_file
                   stride_in_buffer)
                [0 ..< int_loop_count (abs_i32 (hdr_height header))] ok (buf, file)
         else Some (unsupported_bit_per_pixel, buf, file))"

text \<open>
  The overload \<open>load(filename, buffer, buffersize, the_image_properties,
  force_line_padding, force_orientation)\<close>. A null \<open>buffer\<close> is \<open>None\<close>. The result
  carries the buffer and the properties after the call.
\<close>

definition load ::
  "file_system \<Rightarrow> string option \<Rightarrow> byte list option \<Rightarrow> size_t \<Rightarrow> image_properties
     \<Rightarrow> bool \<Rightarrow> bool
     \<Rightarrow> (operation_result_type \<times> byte list option \<times> image_properties) option" where
  "load fs filename buffer buffersize the_image_properties force_line_padding
       force_orientation =
     (case (buffer, filename) of
        (Some buf, Some name) \<Rightarrow>
          if force_orientation \<and> orientation the_image_properties = orientation_invalid
          then Some (invalid_argument, buffer, the_image_properties)
          else do {
            let suggested_orientation = orientation the_image_properties;
            let suggested_line_padding = line_padding the_image_properties;
            (result, file, header, color_table, props1) \<leftarrow>
              load_image_properties (ifstream_open fs name) bmp_header_zero []
                the_image_properties;
            let orientation_in_file = orientation props1;
            if is_ok result
            then do {
              let props2 = (if force_line_padding
                            then props1\<lparr>line_padding := suggested_line_padding\<rparr> else props1);
              let props3 = (if force_orientation
                            then props2\<lparr>orientation := suggested_orientation\<rparr> else props2);
              stride_in_file \<leftarrow> determine_stride_bpp (hdr_bits_per_pixel header) (hdr_width header);
              stride_in_buffer \<leftarrow> determine_stride_props props3;
              line_padding_in_file \<leftarrow>
                determine_line_padding (hdr_bits_per_pixel header) (hdr_width header);
              let image_size_in_buffer =
                    stride_in_buffer * int_to_size_t (abs_i32 (hdr_height header));
              if image_size_in_buffer > buffersize
              then Some (buffer_too_small, buffer, props3)
              else
                let file1 = istream_seekg (unat (hdr_offset header)) file
                in if in_failed file1 then Some (file_read_error, buffer, props3)
                   else do {
                     (result1, buf1, file2) \<leftarrow>
                       load_pixels header color_table props3 orientation_in_file
                         stride_in_file stride_in_buffer line_padding_in_file buf file1;
                     Some (result1, Some buf1, props3)
                   }
            }
            else Some (result, buffer, props1)
          }
      | _ \<Rightarrow> Some (null_argument, buffer, the_image_properties))"

section \<open>Saving\<close>

text \<open>
  The header \<open>save\<close> fills in before it writes, with the orientation of the file.
  \<open>static_cast<int32_t>\<close> of a \<open>uint32_t\<close> keeps the bits.
\<close>

definition save_fill_header ::
  "image_properties \<Rightarrow> bool \<Rightarrow> (bmp_header \<times> orientation_type) option" where
  "save_fill_header the_image_properties force_bottom_up =
     do {
       let flip = (\<not> force_bottom_up \<and> orientation the_image_properties = top_down);
       let orientation_in_file = (if flip then top_down else bottom_up);
       let header_height = (if flip then - height the_image_properties
                            else height the_image_properties);
       bits_per_pixel \<leftarrow>
         (if pixel_format the_image_properties = Mono8 then Some 8
          else if pixel_format the_image_properties = BGR8 then Some 24
          else if pixel_format the_image_properties = BGRA8 then Some 32
          else None);
       let mono = (pixel_format the_image_properties = Mono8);
       let header_size = (if mono then of_nat sizeof_bmp_header + 256 * 4
                          else of_nat sizeof_bmp_header);
       let header_offset = (if mono then of_nat sizeof_bmp_header + 256 * 4
                            else of_nat sizeof_bmp_header);
       stride_in_file \<leftarrow> determine_stride_bpp bits_per_pixel (width the_image_properties);
       let image_size_in_file = stride_in_file * int_to_size_t (abs_i32 header_height);
       Some (\<lparr>hdr_type = 0x4D42,
              hdr_size = header_size + ucast image_size_in_file,
              hdr_reserved1 = 0,
              hdr_reserved2 = 0,
              hdr_offset = header_offset,
              hdr_bitmap_info_header_size = of_nat sizeof_bmp_header - 14,
              hdr_width = width the_image_properties,
              hdr_height = header_height,
              hdr_num_planes = 1,
              hdr_bits_per_pixel = bits_per_pixel,
              hdr_compression = 0,
              hdr_image_size_bytes = 0,
              hdr_x_resolution = 0,
              hdr_y_resolution = 0,
              hdr_num_colors = (if mono then 256 else 0),
              hdr_important_colors = (if mono then 256 else 0)\<rparr>,
             orientation_in_file)
     }"

text \<open>One entry of the identity colour table \<open>save\<close> writes for Mono8.\<close>

definition save_color_table_entry ::
  "nat \<Rightarrow> ofstream \<Rightarrow> (ofstream \<times> operation_result_type option) option" where
  "save_color_table_entry i file =
     (let entry = \<lparr>b = of_nat i, g = of_nat i, r = of_nat i, reserved = 255\<rparr>;
          file1 = ostream_write (entry_bytes entry) file
      in if out_failed file1 then Some (file1, Some file_write_error) else Some (file1, None))"

text \<open>One line of the loop that writes the image data.\<close>

definition save_line ::
  "image_properties \<Rightarrow> orientation_type \<Rightarrow> size_t \<Rightarrow> size_t \<Rightarrow> byte list \<Rightarrow> nat
     \<Rightarrow> ofstream \<Rightarrow> (ofstream \<times> operation_result_type option) option" where
  "save_line the_image_properties orientation_in_file stride_in_buffer line_padding_in_file
       buf line file =
     do {
       let source = unat (buffer_row_offset
                            (orientation the_image_properties = orientation_in_file)
                            (height the_image_properties) line stride_in_buffer);
       bytes \<leftarrow> buffer_fetch buf source
                  (unat (stride_in_buffer - line_padding the_image_properties));
       let file1 = ostream_write bytes file;
       if out_failed file1 then Some (file1, Some file_write_error)
       else if line_padding_in_file \<noteq> 0 \<and> line_padding_in_file \<le> 4
       then let file2 = ostream_write (replicate (unat line_padding_in_file) 0) file1
            in if out_failed file2 then Some (file2, Some file_write_error)
               else Some (file2, None)
       else if line_padding_in_file = 0 then Some (file1, None)
       else None
     }"

text \<open>What \<open>save\<close> sends to the stream once the file is open.\<close>

definition save_stream ::
  "byte list \<Rightarrow> image_properties \<Rightarrow> bool \<Rightarrow> ofstream
     \<Rightarrow> (operation_result_type \<times> ofstream) option" where
  "save_stream buf the_image_properties force_bottom_up file =
     do {
       stride_in_buffer \<leftarrow> determine_stride_props the_image_properties;
       (header, orientation_in_file) \<leftarrow> save_fill_header the_image_properties force_bottom_up;
       let file1 = ostream_write (bmp_header_bytes header) file;
       let result1 = (if out_failed file1 then file_write_error else ok);
       (result2, file2) \<leftarrow>
         (if is_ok result1 \<and> pixel_format the_image_properties = Mono8
          then for_lines save_color_table_entry [0 ..< 256] result1 file1
          else Some (result1, file1));
       line_padding_in_file \<leftarrow>
         determine_line_padding (hdr_bits_per_pixel header) (hdr_width header);
       for_lines
         (save_line the_image_properties orientation_in_file stride_in_buffer
            line_padding_in_file buf)
         [0 ..< unat (height the_image_properties)] result2 file2
     }"

text \<open>
  \<open>save(filename, buffer, buffersize, the_image_properties, force_bottom_up)\<close>.
  The result carries the file system after the call.
\<close>

definition save ::
  "file_system \<Rightarrow> string option \<Rightarrow> byte list option \<Rightarrow> size_t \<Rightarrow> image_properties
     \<Rightarrow> bool \<Rightarrow> (operation_result_type \<times> file_system) option" where
  "save fs filename buffer buffersize the_image_properties force_bottom_up =
     (case (buffer, filename) of
        (Some buf, Some name) \<Rightarrow>
          if height the_image_properties = 0
             \<or> width the_image_properties = 0
             \<or> pixel_format the_image_properties = pixel_format_invalid
             \<or> orientation the_image_properties = orientation_invalid
             \<or> buffersize = 0
             \<or> determine_stride_props the_image_properties = Some 0
          then Some (invalid_argument, fs)
          else do {
            stride \<leftarrow> determine_stride_props the_image_properties;
            if stride * ucast (height the_image_properties) > buffersize
            then Some (buffer_too_small, fs)
            else
              let file = ofstream_open fs name
              in if \<not> out_is_open file then Some (file_open_for_writing_error, fs)
                 else do {
                   (result, file1) \<leftarrow> save_stream buf the_image_properties force_bottom_up file;
                   Some (result, ofstream_close fs name file1)
                 }
          }
      | _ \<Rightarrow> Some (null_argument, fs))"

section \<open>Specification-side definitions\<close>

text \<open>The bytes per pixel of a buffer pixel format, as the specification tabulates them.\<close>

fun bytes_per_pixel :: "pixel_format \<Rightarrow> nat" where
  "bytes_per_pixel Mono8 = 1"
| "bytes_per_pixel BGR8 = 3"
| "bytes_per_pixel BGRA8 = 4"
| "bytes_per_pixel pixel_format_invalid = 0"

text \<open>Rounding up to the next multiple of 4, for the stride of a line in the file.\<close>

definition round_up4 :: "nat \<Rightarrow> nat" where
  "round_up4 n = (n + 3) div 4 * 4"

text \<open>
  The ten checks of the header in the order the specification lists them, on the fields
  read as integers: the first check that fails decides the error.
\<close>

definition header_verdict :: "bmp_header \<Rightarrow> operation_result_type" where
  "header_verdict h =
     (let magic = le16 (hdr_type h);
          info_header_size = unat (hdr_bitmap_info_header_size h);
          pixel_data_offset = unat (hdr_offset h);
          w = sint (hdr_width h);
          hgt = sint (hdr_height h);
          bits = unat (hdr_bits_per_pixel h);
          compression = unat (hdr_compression h);
          declared = unat (hdr_image_size_bytes h);
          colors = unat (hdr_num_colors h);
          important = unat (hdr_important_colors h)
      in if magic \<noteq> [0x42, 0x4D] then not_a_bmp_file
         else if info_header_size < 40 then corrupt
         else if pixel_data_offset < 54 then corrupt
         else if hgt = 0 \<or> w \<le> 0 then corrupt
         else if bits \<notin> {1, 4, 8, 16, 24, 32} then corrupt
         else if compression \<noteq> 0 then unsupported_compression
         else if bits \<notin> {8, 24, 32} then unsupported_bit_per_pixel
         else if bits \<in> {24, 32} \<and> (colors \<noteq> 0 \<or> important \<noteq> 0)
           then unsupported_use_of_color_table
         else if bits = 8 \<and> (colors > 256 \<or> important > 256) then too_large_color_table
         else if declared \<noteq> 0
                 \<and> declared \<noteq> round_up4 (bits div 8 * nat \<bar>w\<bar>) * nat \<bar>hgt\<bar>
           then corrupt
         else ok)"

section \<open>Example inputs\<close>

text \<open>A header of a 1 x 1 image with 16 bits per pixel, compression 1 and a declared
  image size of 99 bytes: the checks 6, 7 and 10 all fail.\<close>

definition example_header_16bit_rle :: "byte list" where
  "example_header_16bit_rle =
     [0x42, 0x4D,  0x3A, 0, 0, 0,  0, 0,  0, 0,  0x36, 0, 0, 0,
      0x28, 0, 0, 0,  1, 0, 0, 0,  1, 0, 0, 0,  1, 0,  0x10, 0,
      1, 0, 0, 0,  0x63, 0, 0, 0,  0, 0, 0, 0,  0, 0, 0, 0,  0, 0, 0, 0,  0, 0, 0, 0]"

definition file_color_table :: "byte list \<Rightarrow> color_table_entry list" where
  "file_color_table data =
     (let header = parse_bmp_header (take 54 data);
          n = (if hdr_num_colors header = 0 then 256 else unat (hdr_num_colors header))
      in entries_of_bytes
           (take (n * 4) (drop (unat (hdr_bitmap_info_header_size header + 14)) data)))"

text \<open>The properties of a file whose header passed, as \<open>determine_image_properties\<close>
  assigns them.\<close>

definition properties_of_header :: "bmp_header \<Rightarrow> color_table_entry list \<Rightarrow> image_properties" where
  "properties_of_header h table =
     \<lparr>width = hdr_width h, height = abs_i32 (hdr_height h),
      line_padding = (case determine_line_padding (hdr_bits_per_pixel h) (hdr_width h) of
                        Some p \<Rightarrow> p | None \<Rightarrow> 0),
      pixel_format = (if hdr_bits_per_pixel h = 8
                      then (if check_is_mono8 table then Mono8 else BGR8)
                      else if hdr_bits_per_pixel h = 24 then BGR8 else BGRA8),
      orientation = (if hdr_height h <s 0 then top_down else bottom_up)\<rparr>"

text \<open>The properties after the force flags of \<open>load\<close> are applied.\<close>

definition requested_layout ::
  "image_properties \<Rightarrow> image_properties \<Rightarrow> bool \<Rightarrow> bool \<Rightarrow> image_properties" where
  "requested_layout props_of_file props_of_caller force_line_padding force_orientation =
     (let props2 = (if force_line_padding
                    then props_of_file\<lparr>line_padding := line_padding props_of_caller\<rparr>
                    else props_of_file)
      in if force_orientation then props2\<lparr>orientation := orientation props_of_caller\<rparr>
         else props2)"

definition example_bgr8_file :: "byte list" where
  "example_bgr8_file =
     [0x42, 0x4D,  0x3A, 0, 0, 0,  0, 0,  0, 0,  0x36, 0, 0, 0,
      0x28, 0, 0, 0,  1, 0, 0, 0,  1, 0, 0, 0,  1, 0,  0x18, 0,
      0, 0, 0, 0,  0, 0, 0, 0,  0, 0, 0, 0,  0, 0, 0, 0,  0, 0, 0, 0,  0, 0, 0, 0,
      1, 2, 3, 0]"

definition example_fs :: "nat option \<Rightarrow> file_system" where
  "example_fs limit =
     \<lparr>files = (\<lambda>name. if name = ''a.bmp'' then Some example_bgr8_file else None),
      writable = (\<lambda>name. True), io_limit = limit\<rparr>"

definition example_bgr8_properties :: image_properties where
  "example_bgr8_properties =
     \<lparr>width = 1, height = 1, line_padding = 1, pixel_format = BGR8, orientation = bottom_up\<rparr>"

text \<open>An open stream on a device that never fails, at a position.\<close>

definition open_at :: "byte list \<Rightarrow> nat \<Rightarrow> ifstream" where
  "open_at data p =
     \<lparr>in_is_open = True, in_data = data, in_pos = p, in_failed = False, in_ops_left = None\<rparr>"

text \<open>The buffer after bytes were copied to an offset inside it.\<close>

definition store_at :: "byte list \<Rightarrow> nat \<Rightarrow> byte list \<Rightarrow> byte list" where
  "store_at buf off bytes = take off buf @ bytes @ drop (off + length bytes) buf"

text \<open>The buffer after the first \<open>n\<close> lines were stored, line \<open>i\<close> at \<open>off i\<close>.\<close>

primrec place_rows :: "(nat \<Rightarrow> nat) \<Rightarrow> (nat \<Rightarrow> byte list) \<Rightarrow> nat \<Rightarrow> byte list \<Rightarrow> byte list" where
  "place_rows off rows 0 buf = buf"
| "place_rows off rows (Suc i) buf = store_at (place_rows off rows i buf) (off i) (rows i)"

text \<open>The offset of file line \<open>i\<close> in the buffer as the specification has it: line
  \<open>i\<close> when the orientations agree, the mirrored line \<open>h - 1 - i\<close> otherwise.\<close>

definition row_offset :: "bool \<Rightarrow> nat \<Rightarrow> nat \<Rightarrow> nat \<Rightarrow> nat" where
  "row_offset same_orientation h stride i =
     (if same_orientation then i * stride else (h - 1 - i) * stride)"

definition file_line_bytes :: "bmp_header \<Rightarrow> nat" where
  "file_line_bytes h = unat (hdr_bits_per_pixel h) div 8 * nat (sint (hdr_width h))"

definition file_stride :: "bmp_header \<Rightarrow> nat" where
  "file_stride h = round_up4 (file_line_bytes h)"

definition file_height :: "bmp_header \<Rightarrow> nat" where
  "file_height h = nat \<bar>sint (hdr_height h)\<bar>"

definition buffer_line_bytes :: "image_properties \<Rightarrow> nat" where
  "buffer_line_bytes p = unat (width p) * bytes_per_pixel (pixel_format p)"

definition buffer_stride :: "image_properties \<Rightarrow> nat" where
  "buffer_stride p = buffer_line_bytes p + unat (line_padding p)"

text \<open>What a line of the file becomes in the buffer.\<close>

definition decode_line ::
  "bmp_header \<Rightarrow> color_table_entry list \<Rightarrow> pixel_format \<Rightarrow> byte list \<Rightarrow> byte list" where
  "decode_line header table target bytes =
     (if hdr_bits_per_pixel header > 8 then bytes
      else if target = Mono8
        then (if check_is_linear_mono8 table then bytes
              else map (\<lambda>x. b (table ! unat x)) bytes)
      else concat (map (\<lambda>x. [b (table ! unat x), g (table ! unat x), r (table ! unat x)])
                     bytes))"

text \<open>The pixel bytes of line \<open>i\<close> of the file, the pixel data starting at \<open>p0\<close>.\<close>

definition file_line :: "bmp_header \<Rightarrow> byte list \<Rightarrow> nat \<Rightarrow> nat \<Rightarrow> byte list" where
  "file_line header data p0 i =
     take (file_line_bytes header) (drop (p0 + i * file_stride header) data)"

text \<open>An open output stream on a device that never fails, with the bytes written so far.\<close>

definition out_open :: "byte list \<Rightarrow> ofstream" where
  "out_open written =
     \<lparr>out_is_open = True, out_data = written, out_failed = False, out_ops_left = None\<rparr>"

text \<open>The identity colour table that \<open>save\<close> writes for Mono8.\<close>

definition identity_color_table :: "color_table_entry list" where
  "identity_color_table =
     map (\<lambda>i. \<lparr>b = of_nat i, g = of_nat i, r = of_nat i, reserved = 255\<rparr>) [0..<256]"

text \<open>Bits per pixel that \<open>save\<close> writes for a pixel format.\<close>

fun bits_of_format :: "pixel_format \<Rightarrow> 16 word" where
  "bits_of_format Mono8 = 8"
| "bits_of_format BGR8 = 24"
| "bits_of_format BGRA8 = 32"
| "bits_of_format pixel_format_invalid = 0"

text \<open>Line \<open>i\<close> of the saved file: the pixel bytes of the buffer line it is taken from
  and the padding of the file.\<close>

definition encoded_line ::
  "bmp_header \<Rightarrow> image_properties \<Rightarrow> orientation_type \<Rightarrow> byte list \<Rightarrow> nat \<Rightarrow> byte list" where
  "encoded_line header props orientation_in_file buf i =
     take (buffer_line_bytes props)
       (drop (row_offset (orientation props = orientation_in_file) (unat (height props))
                (buffer_stride props) i) buf)
     @ replicate (file_stride header - file_line_bytes header) 0"

text \<open>The bytes of the saved file: header, colour table for Mono8, lines.\<close>

definition encoded_file ::
  "bmp_header \<Rightarrow> image_properties \<Rightarrow> orientation_type \<Rightarrow> byte list \<Rightarrow> byte list" where
  "encoded_file header props orientation_in_file buf =
     bmp_header_bytes header
     @ (if pixel_format props = Mono8 then color_table_bytes identity_color_table else [])
     @ concat (map (encoded_line header props orientation_in_file buf)
                 [0..<unat (height props)])"

text \<open>A file that \<open>load\<close> decodes without leaving the file's bytes or the colour table:
  the header passes the checks, its height is not \<open>INT_MIN\<close> (on which \<open>abs\<close> is
  undefined), the colour table and every line are in the file, and every pixel of an 8-bit
  file that goes through the table is an index into it.\<close>

definition decodable_file :: "byte list \<Rightarrow> bool" where
  "decodable_file data =
     (let h = parse_bmp_header (take 54 data);
          table = (if hdr_bits_per_pixel h = 8 then file_color_table data else [])
      in 54 \<le> length data \<and> header_verdict h = ok \<and> sint (hdr_height h) \<noteq> - (2^31)
         \<and> (hdr_bits_per_pixel h = 8 \<longrightarrow>
               unat (hdr_bitmap_info_header_size h + 14)
                 + (if hdr_num_colors h = 0 then 256 else unat (hdr_num_colors h)) * 4
               \<le> length data)
         \<and> unat (hdr_offset h) + file_height h * file_stride h \<le> length data
         \<and> (hdr_bits_per_pixel h = 8 \<longrightarrow>
               \<not> (check_is_mono8 table \<and> check_is_linear_mono8 table) \<longrightarrow>
               (\<forall>i<file_height h. \<forall>x \<in> set (file_line h data (unat (hdr_offset h)) i).
                   unat x < length table)))"

text \<open>An 8-bit file of two pixels in one line, with a colour table of two entries, the
  second one not gray: pixel 0 has index 1, pixel 1 has index 0.\<close>

definition example_indexed_file :: "byte list" where
  "example_indexed_file =
     [0x42, 0x4D,  0x42, 0, 0, 0,  0, 0,  0, 0,  0x3E, 0, 0, 0,
      0x28, 0, 0, 0,  2, 0, 0, 0,  1, 0, 0, 0,  1, 0,  8, 0,
      0, 0, 0, 0,  0, 0, 0, 0,  0, 0, 0, 0,  0, 0, 0, 0,  2, 0, 0, 0,  0, 0, 0, 0,
      0, 0, 0, 0,  10, 20, 30, 0,
      1, 0, 0, 0]"

definition example_indexed_properties :: image_properties where
  "example_indexed_properties =
     \<lparr>width = 2, height = 1, line_padding = 2, pixel_format = BGR8, orientation = bottom_up\<rparr>"

text \<open>A 24-bit file of one column and two lines, stored bottom-up.\<close>

definition example_two_line_file :: "byte list" where
  "example_two_line_file =
     [0x42, 0x4D,  0x3E, 0, 0, 0,  0, 0,  0, 0,  0x36, 0, 0, 0,
      0x28, 0, 0, 0,  1, 0, 0, 0,  2, 0, 0, 0,  1, 0,  0x18, 0,
      0, 0, 0, 0,  0, 0, 0, 0,  0, 0, 0, 0,  0, 0, 0, 0,  0, 0, 0, 0,  0, 0, 0, 0,
      1, 2, 3, 0,
      4, 5, 6, 0]"

definition example_two_line_properties :: image_properties where
  "example_two_line_properties =
     \<lparr>width = 1, height = 2, line_padding = 1, pixel_format = BGR8, orientation = top_down\<rparr>"

text \<open>A file system with the two files, on a device that never fails.\<close>

definition example_files :: file_system where
  "example_files =
     \<lparr>files = (\<lambda>name. if name = ''indexed.bmp'' then Some example_indexed_file
                      else if name = ''two.bmp'' then Some example_two_line_file else None),
      writable = (\<lambda>name. True), io_limit = None\<rparr>"

text \<open>An image of one column and \<open>2 ^ 31 + 1\<close> lines.\<close>

definition example_tall_properties :: image_properties where
  "example_tall_properties =
     \<lparr>width = 1, height = 0x80000001, line_padding = 0, pixel_format = Mono8,
      orientation = bottom_up\<rparr>"

text \<open>Properties whose exact buffer size is above the range of \<open>size_t\<close>.\<close>

definition example_huge_properties :: image_properties where
  "example_huge_properties =
     \<lparr>width = 0xFFFFFFFF, height = 0xFFFFFFFF, line_padding = 0, pixel_format = BGRA8,
      orientation = bottom_up\<rparr>"

text \<open>Valid properties of one pixel whose line padding makes the stride wrap to 0.\<close>

definition example_wrapping_properties :: image_properties where
  "example_wrapping_properties =
     \<lparr>width = 1, height = 1, line_padding = 0xFFFFFFFFFFFFFFFF, pixel_format = Mono8,
      orientation = bottom_up\<rparr>"



section \<open>Buffer size\<close>

lemma determine_stride_props_valid:
  "pixel_format p \<noteq> pixel_format_invalid \<Longrightarrow>
   determine_stride_props p =
     Some (ucast (width p) * of_nat (bytes_per_pixel (pixel_format p)) + line_padding p)"
  by (cases "pixel_format p") (simp_all add: determine_stride_props_def)

text \<open>
  Claim C9. \<open>compute_buffer_size\<close> leaves its argument as it was: the properties after
  the call are the properties passed in, for every input.
\<close>

theorem compute_buffer_size_frame:
  "map_option snd (compute_buffer_size P) = Some P"
  by (simp add: compute_buffer_size_def determine_stride_props_valid)

section \<open>Words and integers\<close>

lemma rd32_le32: "rd32 (le32 w) 0 = w"
  unfolding rd32_def le32_def
  apply (rule bit_word_eqI)
  apply (auto simp: bit_simps)
  subgoal for n
    apply (rule ccontr)
    apply (subgoal_tac "24 + (n - 24) = n")
     apply simp
    apply arith
    done
  done

lemma sint32_bounds: "sint (w :: 32 word) < 2^31" "- (2^31) \<le> sint w"
  using sint_lt[of w] sint_ge[of w] by simp_all

lemma unat_word_of_int64: "unat (word_of_int k :: 64 word) = nat (k mod 2^64)"
  by (simp add: unat_eq_nat_uint uint_word_of_int)

lemma unat_int_to_size_t_nonneg:
  "0 \<le> sint w \<Longrightarrow> unat (int_to_size_t w) = nat (sint w)"
proof -
  assume a: "0 \<le> sint w"
  have e: "(scast w :: 64 word) = word_of_int (sint w)" by (rule scast_eq)
  have "sint w mod 2^64 = sint w"
    using a sint32_bounds(1)[of w] by (intro mod_pos_pos_trivial) auto
  then show ?thesis
    unfolding int_to_size_t_def e unat_word_of_int64 by simp
qed

lemma sint_abs_i32:
  assumes "sint w \<noteq> - (2^31)"
  shows "sint (abs_i32 w) = \<bar>sint w\<bar>"
proof (cases "w <s 0")
  case True
  then have neg: "sint w < 0" by (simp add: word_sless_alt)
  have "signed_take_bit 31 (- sint w) = - sint w"
    using assms neg sint32_bounds(2)[of w]
    by (intro signed_take_bit_int_eq_self) auto
  then show ?thesis using True neg
    by (simp add: abs_i32_def sint_word_minus)
next
  case False
  then have "0 \<le> sint w" by (simp add: word_sless_alt)
  then show ?thesis using False by (simp add: abs_i32_def)
qed

lemma abs_i32_min: 
  assumes "sint w = - (2^31)"
  shows "abs_i32 w = w" "int_to_size_t w = 0xFFFFFFFF80000000"
proof -
  have w: "w = word_of_int (sint w)" by simp
  have "w = 0x80000000" apply (subst w) apply (simp only: assms) by simp
  then show "abs_i32 w = w" "int_to_size_t w = 0xFFFFFFFF80000000"
    by (simp_all add: abs_i32_def int_to_size_t_def word_sless_alt)
qed

lemma byte_per_pixel_in_file_cases:
  "byte_per_pixel_in_file bits = Some k \<Longrightarrow> (bits = 8 \<and> k = 1) \<or> (bits = 24 \<and> k = 3) \<or> (bits = 32 \<and> k = 4)"
  by (auto simp: byte_per_pixel_in_file_def split: if_splits)

lemma unat_raw_stride:
  assumes k: "unat (k::size_t) \<le> 4" and w: "0 \<le> sint w"
  shows "unat (k * int_to_size_t (abs_i32 w)) = unat k * nat (sint w)"
proof -
  have a: "abs_i32 w = w" using w by (simp add: abs_i32_def word_sless_alt)
  have n: "unat (int_to_size_t w) = nat (sint w)" by (rule unat_int_to_size_t_nonneg[OF w])
  have b: "nat (sint w) < 2^31" using sint32_bounds(1)[of w] w by simp
  have "unat k * nat (sint w) \<le> 4 * nat (sint w)" using k by (rule mult_le_mono1)
  also have "\<dots> < 2 ^ 64" using b by simp
  finally have "unat k * unat (int_to_size_t w) < 2 ^ LENGTH(64)" unfolding n by simp
  then have "unat (k * int_to_size_t w) = unat k * unat (int_to_size_t w)"
    by (rule unat_mult_lem[THEN iffD1])
  then show ?thesis unfolding a n .
qed

lemma round_up4_alt: "round_up4 n = (if n mod 4 = 0 then n else n + (4 - n mod 4))"
  unfolding round_up4_def by presburger

lemma unat_round_up:
  assumes "unat (raw::size_t) < 2^34"
  shows "unat (if raw mod 4 = 0 then raw else raw + (4 - raw mod 4)) = round_up4 (unat raw)"
    and "unat (if raw mod 4 = 0 then 0 else 4 - raw mod 4) = round_up4 (unat raw) - unat raw"
proof -
  have m: "unat (raw mod 4) = unat raw mod 4" by (simp add: unat_mod)
  have z: "(raw mod 4 = 0) = (unat raw mod 4 = 0)"
    unfolding m[symmetric] by (simp add: unat_eq_zero)
  have le: "raw mod 4 \<le> 4" by (simp add: word_le_nat_alt m) 
  have s: "unat (4 - raw mod 4) = 4 - unat raw mod 4"
    using unat_sub[OF le] m by simp
  have "unat raw + unat (4 - raw mod 4) < 2 ^ LENGTH(64)" using assms s by simp
  then have "unat (raw + (4 - raw mod 4)) = unat raw + unat (4 - raw mod 4)"
    by (rule unat_add_lem[THEN iffD1])
  then have p: "unat (raw + (4 - raw mod 4)) = unat raw + (4 - unat raw mod 4)"
    unfolding s .
  show "unat (if raw mod 4 = 0 then raw else raw + (4 - raw mod 4)) = round_up4 (unat raw)"
    unfolding round_up4_alt z using p by simp
  show "unat (if raw mod 4 = 0 then 0 else 4 - raw mod 4) = round_up4 (unat raw) - unat raw"
    unfolding round_up4_alt z using s by simp
qed

lemma le16_rd16: "rd16 (le16 w) 0 = w"
  unfolding rd16_def le16_def
  apply (rule bit_word_eqI)
  apply (auto simp: bit_simps)
  done

lemma magic_iff: "(le16 w = [0x42, 0x4D]) = (w = 0x4D42)"
proof
  assume "le16 w = [0x42, 0x4D]"
  then have "rd16 (le16 w) 0 = rd16 [0x42, 0x4D] 0" by simp
  then show "w = 0x4D42" unfolding le16_rd16 by (simp add: rd16_def)
next
  assume "w = 0x4D42" then show "le16 w = [0x42, 0x4D]" by (simp add: le16_def)
qed

lemma unat_ucast_32_64: "unat (ucast (w::32 word) :: 64 word) = unat w"
  apply (simp add: unsigned_ucast_eq)
  apply (simp add: take_bit_nat_eq_self_iff)
  apply (rule order_less_trans[OF unsigned_less]) apply simp
  done

lemma unat32_lt: "unat (w::32 word) < 2^32"
  using unsigned_less[of w] by simp

lemma ucast_eq_iff: "(ucast (d::32 word) = (x::64 word)) = (unat d = unat x)"
  by (metis unat_ucast_32_64 word_unat_eq_iff)

lemma determine_stride_bpp_nat:
  assumes "byte_per_pixel_in_file bits = Some k" "0 \<le> sint w"
  shows "\<exists>s. determine_stride_bpp bits w = Some s \<and> unat s = round_up4 (unat k * nat (sint w))"
proof -
  have k: "unat k \<le> 4" using byte_per_pixel_in_file_cases[OF assms(1)] by auto
  have raw: "unat (k * int_to_size_t (abs_i32 w)) = unat k * nat (sint w)"
    by (rule unat_raw_stride[OF k assms(2)])
  have "nat (sint w) < 2^31" using sint32_bounds(1)[of w] assms(2) by simp
  then have b: "4 * nat (sint w) < 2^34" by simp
  have "unat k * nat (sint w) \<le> 4 * nat (sint w)" using k by (rule mult_le_mono1)
  then have "unat k * nat (sint w) < 2^34" using b by (rule le_less_trans)
  then have "unat (k * int_to_size_t (abs_i32 w)) < 2^34" unfolding raw .
  from unat_round_up(1)[OF this] show ?thesis
    unfolding determine_stride_bpp_def using assms(1) raw by (simp add: Let_def)
qed

lemma unat_size_times_abs:
  assumes S: "unat (s::size_t) \<le> 2^33" and h: "sint h \<noteq> - (2^31)"
  shows "unat (s * int_to_size_t (abs_i32 h)) = unat s * nat \<bar>sint h\<bar>"
proof -
  have a: "sint (abs_i32 h) = \<bar>sint h\<bar>" by (rule sint_abs_i32[OF h])
  then have "0 \<le> sint (abs_i32 h)" by simp
  then have n: "unat (int_to_size_t (abs_i32 h)) = nat \<bar>sint h\<bar>"
    using unat_int_to_size_t_nonneg[of "abs_i32 h"] a by simp
  have "\<bar>sint h\<bar> < 2^31" using sint32_bounds[of h] h by simp
  then have b: "nat \<bar>sint h\<bar> < 2^31" by simp
  have "unat s * nat \<bar>sint h\<bar> \<le> 2^33 * nat \<bar>sint h\<bar>" using S by (rule mult_le_mono1)
  also have "\<dots> < 2^33 * 2^31" using b by simp
  finally have "unat s * unat (int_to_size_t (abs_i32 h)) < 2 ^ LENGTH(64)"
    unfolding n by simp
  then have "unat (s * int_to_size_t (abs_i32 h)) = unat s * unat (int_to_size_t (abs_i32 h))"
    by (rule unat_mult_lem[THEN iffD1])
  then show ?thesis unfolding n .
qed

lemma unat_size_times_int_min:
  assumes S: "unat (s::size_t) \<le> 2^33 - 4" and pos: "0 < unat s" and h: "sint h = - (2^31)"
  shows "2^32 \<le> unat (s * int_to_size_t (abs_i32 h))"
proof -
  let ?S = "unat s"
  have c: "int_to_size_t (abs_i32 h) = 0xFFFFFFFF80000000"
    using abs_i32_min[OF h] by simp
  have u: "unat (s * 0xFFFFFFFF80000000) = (?S * 18446744071562067968) mod 2^64"
    by (simp add: unat_word_ariths)
  have d: "?S * 18446744071562067968 = (?S - 1) * 2^64 + (2^64 - ?S * 2^31)"
    using pos S by (simp add: algebra_simps)
  have r: "(2^64 - ?S * 2^31) < (2::nat)^64" using pos by simp
  have "(?S * 18446744071562067968) mod 2^64 = (2^64 - ?S * 2^31) mod 2^64"
    unfolding d by (rule mod_mult_self3)
  also have "\<dots> = 2^64 - ?S * 2^31" using r by (rule mod_less)
  finally have v: "unat (s * 0xFFFFFFFF80000000) = 2^64 - ?S * 2^31" unfolding u .
  have "?S * 2^31 \<le> (2^33 - 4) * 2^31" using S by (rule mult_le_mono1)
  then have "2^32 \<le> (2::nat)^64 - ?S * 2^31" by simp
  then show ?thesis unfolding c v .
qed

lemma round_up4_bounds:
  "0 < n \<Longrightarrow> 4 \<le> round_up4 n" "n \<le> 8589934588 \<Longrightarrow> round_up4 n \<le> 8589934588"
  unfolding round_up4_def by presburger+

lemma image_size_verdict:
  assumes k: "byte_per_pixel_in_file bits = Some k" and w: "0 < sint w" and h: "sint h \<noteq> 0"
  shows "(do { stride \<leftarrow> determine_stride_bpp bits w;
              let image_data_size = stride * int_to_size_t (abs_i32 h);
              Some (if \<not> (d = 0 \<or> ucast (d::32 word) = image_data_size) then corrupt else ok) })
         = Some (if unat d \<noteq> 0 \<and> unat d \<noteq> round_up4 (unat k * nat \<bar>sint w\<bar>) * nat \<bar>sint h\<bar>
                 then corrupt else ok)"
proof -
  from w have w0: "0 \<le> sint w" by simp
  obtain s where s: "determine_stride_bpp bits w = Some s"
    and us: "unat s = round_up4 (unat k * nat (sint w))"
    using determine_stride_bpp_nat[OF k w0] by blast
  have kk: "unat k \<le> 4" "0 < unat k" using byte_per_pixel_in_file_cases[OF k] by auto
  have wb: "nat (sint w) \<le> 2147483647" "0 < nat (sint w)" using sint32_bounds(1)[of w] w by simp_all
  have "unat k * nat (sint w) \<le> 4 * 2147483647" using kk(1) wb(1) by (rule mult_le_mono)
  then have raw_le: "unat k * nat (sint w) \<le> 8589934588" by simp
  have raw_pos: "0 < unat k * nat (sint w)" using kk(2) wb(2) by simp
  have S1: "unat s \<le> 2^33 - 4" unfolding us using round_up4_bounds(2)[OF raw_le] by simp
  have S0: "4 \<le> unat s" unfolding us by (rule round_up4_bounds(1)[OF raw_pos])
  have aw: "\<bar>sint w\<bar> = sint w" using w by simp
  have d0: "(d = 0) = (unat d = 0)" by (simp add: unat_eq_zero)
  show ?thesis
  proof (cases "sint h = - (2^31)")
    case True
    have big: "2^32 \<le> unat (s * int_to_size_t (abs_i32 h))"
      using unat_size_times_int_min[OF S1 _ True] S0 by simp
    have ne: "ucast d \<noteq> s * int_to_size_t (abs_i32 h)"
      unfolding ucast_eq_iff using big unat32_lt[of d] by simp
    have "4 * (2::nat)^31 \<le> unat s * 2^31" using S0 by (rule mult_le_mono1)
    then have "2^32 \<le> unat s * nat \<bar>sint h\<bar>" unfolding True by simp
    then have ne': "unat d \<noteq> unat s * nat \<bar>sint h\<bar>" using unat32_lt[of d] by simp
    show ?thesis unfolding s aw us[symmetric] using ne ne' d0 by (simp add: Let_def)
  next
    case False
    have S2: "unat s \<le> 2^33" using S1 by simp
    have p: "unat (s * int_to_size_t (abs_i32 h)) = unat s * nat \<bar>sint h\<bar>"
      by (rule unat_size_times_abs[OF S2 False])
    show ?thesis unfolding s aw us[symmetric] by (simp add: Let_def ucast_eq_iff p d0)
  qed
qed

section \<open>Header validation\<close>

lemma bits_eq_unat: "(x = (8 :: 16 word)) = (unat x = 8)" "(x = (24 :: 16 word)) = (unat x = 24)"
   "(x = (32 :: 16 word)) = (unat x = 32)" "(x = (1 :: 16 word)) = (unat x = 1)"
   "(x = (4 :: 16 word)) = (unat x = 4)" "(x = (16 :: 16 word)) = (unat x = 16)"
  by (simp_all add: word_unat_eq_iff)

lemma check_header_conds:
  "(hdr_type h \<noteq> 0x4D42) = (le16 (hdr_type h) \<noteq> [0x42, 0x4D])"
  "(hdr_bitmap_info_header_size h < 40) = (unat (hdr_bitmap_info_header_size h) < 40)"
  "(hdr_offset h < of_nat sizeof_bmp_header) = (unat (hdr_offset h) < 54)"
  "(hdr_height h = 0 \<or> hdr_width h \<le>s 0) = (sint (hdr_height h) = 0 \<or> sint (hdr_width h) \<le> 0)"
  "(hdr_compression h \<noteq> 0) = (unat (hdr_compression h) \<noteq> 0)"
  "(hdr_num_colors h \<noteq> 0 \<or> hdr_important_colors h \<noteq> 0) = (unat (hdr_num_colors h) \<noteq> 0 \<or> unat (hdr_important_colors h) \<noteq> 0)"
  "(hdr_num_colors h > 256 \<or> hdr_important_colors h > 256) = (unat (hdr_num_colors h) > 256 \<or> unat (hdr_important_colors h) > 256)"
  subgoal by (simp only: magic_iff)
  subgoal by (simp add: word_less_nat_alt)
  subgoal by (simp add: word_less_nat_alt sizeof_bmp_header_def)
  subgoal by (simp add: word_sle_eq signed_eq_0_iff)
  subgoal by (simp add: unat_eq_zero)
  subgoal by (simp add: unat_eq_zero)
  subgoal by (simp add: word_less_nat_alt)
  done

lemma verdict_chain:
  assumes "\<not> c4 \<Longrightarrow> F = Some F'"
  shows "(if c1 then Some a1 else if c2 then Some a2 else if c3 then Some a3
          else if c4 then Some a4 else if c5 then Some a5 else if c6 then Some a6
          else if c7 then Some a7 else if c8 then Some a8 else if c9 then Some a9 else F)
         = Some (if c1 then a1 else if c2 then a2 else if c3 then a3
          else if c4 then a4 else if c5 then a5 else if c6 then a6
          else if c7 then a7 else if c8 then a8 else if c9 then a9 else F')"
  using assms by simp

lemma check_header_verdict: "check_header h = Some (header_verdict h)"
proof (cases "byte_per_pixel_in_file (hdr_bits_per_pixel h)")
  case None
  then have nb: "unat (hdr_bits_per_pixel h) \<noteq> 8" "unat (hdr_bits_per_pixel h) \<noteq> 24"
    "unat (hdr_bits_per_pixel h) \<noteq> 32"
    by (auto simp: byte_per_pixel_in_file_def bits_eq_unat split: if_splits)
  show ?thesis
    unfolding check_header_def header_verdict_def Let_def check_header_conds bits_eq_unat
    using nb by simp
next
  case (Some k)
  have kb: "unat k = unat (hdr_bits_per_pixel h) div 8"
    using byte_per_pixel_in_file_cases[OF Some] by auto
  show ?thesis
    unfolding check_header_def header_verdict_def check_header_conds bits_eq_unat
    apply (simp only: Let_def insert_iff empty_iff de_Morgan_disj simp_thms)
    apply (rule verdict_chain)
    apply (simp only: de_Morgan_disj not_le)
    apply (erule conjE)
    apply (rule image_size_verdict[OF Some, unfolded kb Let_def de_Morgan_disj])
     apply assumption+
    done
qed

lemma length_bmp_header_bytes: "length (bmp_header_bytes h) = 54"
  by (simp add: bmp_header_bytes_def le16_def le32_def)

lemma overlay_full: "length new = length old \<Longrightarrow> overlay new old = new"
  by (simp add: overlay_def)

lemma istream_read_ok:
  assumes "\<not> in_failed s" "\<not> device_fails (in_ops_left s)" "in_pos s + n \<le> length (in_data s)"
  shows "istream_read n s =
           (take n (drop (in_pos s) (in_data s)),
            s\<lparr>in_pos := in_pos s + n, in_failed := False,
              in_ops_left := device_step (in_ops_left s)\<rparr>)"
  using assms by (simp add: istream_read_def Let_def min_def)

text \<open>
  Claim C2. On a stream that delivers 54 bytes, \<open>load_and_check_header\<close> reports the
  verdict of the ten checks taken in the specification's order on the header read: the
  earliest failing check decides the error kind, and a header that passes all is Ok.
\<close>

theorem load_and_check_header_order:
  assumes "\<not> in_failed s" and "\<not> device_fails (in_ops_left s)"
    and "in_pos s + 54 \<le> length (in_data s)"
  shows "load_and_check_header s h0 =
           Some (header_verdict (parse_bmp_header (take 54 (drop (in_pos s) (in_data s)))),
                 parse_bmp_header (take 54 (drop (in_pos s) (in_data s))),
                 s\<lparr>in_pos := in_pos s + 54, in_failed := False,
                   in_ops_left := device_step (in_ops_left s)\<rparr>)"
proof -
  have len: "length (take 54 (drop (in_pos s) (in_data s))) = length (bmp_header_bytes h0)"
    using assms(3) by (simp add: length_bmp_header_bytes)
  show ?thesis
    unfolding load_and_check_header_def sizeof_bmp_header_def
      istream_read_ok[OF assms] 
    by (simp add: overlay_full[OF len] check_header_verdict Let_def)
qed

text \<open>
  Claim C2 at a header that fails the checks 6, 7 and 10: the error of check 6 is reported.
\<close>

theorem load_and_check_header_order_witness:
  "map_option fst
     (load_and_check_header
        \<lparr>in_is_open = True, in_data = example_header_16bit_rle, in_pos = 0,
         in_failed = False, in_ops_left = None\<rparr> bmp_header_zero)
   = Some unsupported_compression"
  using load_and_check_header_order
    [of "\<lparr>in_is_open = True, in_data = example_header_16bit_rle, in_pos = 0,
         in_failed = False, in_ops_left = None\<rparr>" bmp_header_zero]
  by (simp add: example_header_16bit_rle_def device_fails_def header_verdict_def
      parse_bmp_header_def rd16_def rd32_def le16_def)

section \<open>Loading image properties\<close>

lemma header_verdict_ok:
  assumes "header_verdict h = ok"
  shows "0 < sint (hdr_width h)" "sint (hdr_height h) \<noteq> 0"
    "hdr_bits_per_pixel h = 8 \<or> hdr_bits_per_pixel h = 24 \<or> hdr_bits_per_pixel h = 32"
    "hdr_bits_per_pixel h = 8 \<Longrightarrow> unat (hdr_num_colors h) \<le> 256"
    "hdr_bits_per_pixel h \<noteq> 8 \<Longrightarrow> hdr_num_colors h = 0"
    "54 \<le> unat (hdr_offset h)" "40 \<le> unat (hdr_bitmap_info_header_size h)"
  using assms unfolding header_verdict_def Let_def bits_eq_unat
  by (auto split: if_splits simp: unat_eq_zero)

lemma load_and_check_header_ok:
  assumes "load_and_check_header s h0 = Some (ok, h, s')"
  shows "header_verdict h = ok" "\<not> in_failed s'"
  using assms unfolding load_and_check_header_def
  by (auto simp: Let_def check_header_verdict split: prod.splits if_splits)

lemma determine_line_padding_nat:
  assumes "byte_per_pixel_in_file bits = Some k" "0 \<le> sint w"
  shows "\<exists>p. determine_line_padding bits w = Some p
           \<and> unat p = round_up4 (unat k * nat (sint w)) - unat k * nat (sint w)"
proof -
  have k: "unat k \<le> 4" using byte_per_pixel_in_file_cases[OF assms(1)] by auto
  have raw: "unat (k * int_to_size_t (abs_i32 w)) = unat k * nat (sint w)"
    by (rule unat_raw_stride[OF k assms(2)])
  have "nat (sint w) < 2^31" using sint32_bounds(1)[of w] assms(2) by simp
  then have b: "4 * nat (sint w) < 2^34" by simp
  have "unat k * nat (sint w) \<le> 4 * nat (sint w)" using k by (rule mult_le_mono1)
  then have "unat k * nat (sint w) < 2^34" using b by (rule le_less_trans)
  then have "unat (k * int_to_size_t (abs_i32 w)) < 2^34" unfolding raw .
  from unat_round_up(2)[OF this] show ?thesis
    unfolding determine_line_padding_def using assms(1) raw by (simp add: Let_def)
qed

lemma round_up4_diff: "round_up4 n - n \<le> 3" "n \<le> round_up4 n"
  unfolding round_up4_def by presburger+

lemma byte_per_pixel_in_file_Some:
  "bits = 8 \<or> bits = 24 \<or> bits = 32 \<Longrightarrow>
   byte_per_pixel_in_file bits = Some (if bits = 8 then 1 else if bits = 24 then 3 else 4)"
  by (auto simp: byte_per_pixel_in_file_def)

text \<open>The properties \<open>determine_image_properties\<close> assigns for a header that passed
  the checks: every field is assigned, whatever the properties were before.\<close>

lemma determine_image_properties_ok:
  assumes v: "header_verdict h = ok"
  shows "\<exists>p. determine_line_padding (hdr_bits_per_pixel h) (hdr_width h) = Some p \<and> unat p \<le> 3 \<and>
     determine_image_properties h table P =
       Some \<lparr>width = hdr_width h, height = abs_i32 (hdr_height h), line_padding = p,
             pixel_format = (if hdr_bits_per_pixel h = 8
                             then (if check_is_mono8 table then Mono8 else BGR8)
                             else if hdr_bits_per_pixel h = 24 then BGR8 else BGRA8),
             orientation = (if hdr_height h <s 0 then top_down else bottom_up)\<rparr>"
proof -
  note ok = header_verdict_ok[OF v]
  have w0: "0 \<le> sint (hdr_width h)" using ok(1) by simp
  have aw: "abs_i32 (hdr_width h) = hdr_width h"
    using ok(1) by (simp add: abs_i32_def word_sless_alt)
  obtain k where k: "byte_per_pixel_in_file (hdr_bits_per_pixel h) = Some k"
    using byte_per_pixel_in_file_Some[OF ok(3)] by blast
  obtain p where p: "determine_line_padding (hdr_bits_per_pixel h) (hdr_width h) = Some p"
    and up: "unat p = round_up4 (unat k * nat (sint (hdr_width h))) - unat k * nat (sint (hdr_width h))"
    using determine_line_padding_nat[OF k w0] by blast
  have p3: "unat p \<le> 3" unfolding up by (rule round_up4_diff(1))
  have le8: "(hdr_bits_per_pixel h \<le> 8) = (hdr_bits_per_pixel h = 8)"
    using ok(3) by (auto simp: word_le_nat_alt)
  show ?thesis
    apply (rule exI[of _ p])
    using ok(3) p p3
    by (auto simp: determine_image_properties_def Let_def aw le8)
qed

lemma istream_read_success:
  assumes "istream_read n s = (bytes, s')" "\<not> in_failed s'"
  shows "bytes = take n (drop (in_pos s) (in_data s))" "length bytes = n"
    "s' = s\<lparr>in_pos := in_pos s + n, in_failed := False, in_ops_left := device_step (in_ops_left s)\<rparr>"
    "\<not> in_failed s" "\<not> device_fails (in_ops_left s)"
    "0 < n \<Longrightarrow> in_pos s + n \<le> length (in_data s)"
  using assms unfolding istream_read_def Let_def
  by (auto split: if_splits simp: min_def)

lemma istream_seekg_success:
  assumes "\<not> in_failed (istream_seekg p s)"
  shows "istream_seekg p s = s\<lparr>in_pos := p, in_ops_left := device_step (in_ops_left s)\<rparr>"
    "\<not> in_failed s" "\<not> device_fails (in_ops_left s)"
  using assms unfolding istream_seekg_def by (auto split: if_splits)

lemma istream_seekg_cur_success:
  assumes "\<not> in_failed (istream_seekg_cur off s)"
  shows "istream_seekg_cur off s = s\<lparr>in_pos := in_pos s + off, in_ops_left := device_step (in_ops_left s)\<rparr>"
    "\<not> in_failed s" "\<not> device_fails (in_ops_left s)"
  using assms unfolding istream_seekg_cur_def by (auto split: if_splits)

lemma length_color_table_bytes: "length (color_table_bytes table) = 4 * length table"
  unfolding color_table_bytes_def by (induction table) (simp_all add: entry_bytes_def)

lemma resize_table_Nil: "resize_table n [] = replicate n color_table_entry_zero"
  by (simp add: resize_table_def)

lemma check_is_mono8_iff:
  "check_is_mono8 table = (\<forall>e \<in> set table. r e = g e \<and> r e = b e)"
  by (induction table) auto

text \<open>What a successful \<open>load_and_check_header\<close> on a fresh header has read.\<close>

lemma load_and_check_header_parsed:
  assumes "load_and_check_header s h0 = Some (ok, h, s')"
  shows "h = parse_bmp_header (take 54 (drop (in_pos s) (in_data s)))"
    "s' = s\<lparr>in_pos := in_pos s + 54, in_failed := False, in_ops_left := device_step (in_ops_left s)\<rparr>"
    "\<not> in_failed s" "\<not> device_fails (in_ops_left s)" "in_pos s + 54 \<le> length (in_data s)"
proof -
  obtain bytes s1 where rd: "istream_read sizeof_bmp_header s = (bytes, s1)"
    by (cases "istream_read sizeof_bmp_header s") auto
  have nf: "\<not> in_failed s1" and s1: "s' = s1"
    and hh: "h = parse_bmp_header (overlay bytes (bmp_header_bytes h0))"
    using assms unfolding load_and_check_header_def rd
    by (auto simp: Let_def check_header_verdict split: if_splits)
  note su = istream_read_success[OF rd nf, unfolded sizeof_bmp_header_def]
  have "overlay bytes (bmp_header_bytes h0) = bytes"
    by (rule overlay_full) (simp add: su(2) length_bmp_header_bytes)
  then show "h = parse_bmp_header (take 54 (drop (in_pos s) (in_data s)))"
    using hh su(1) by simp
  show "s' = s\<lparr>in_pos := in_pos s + 54, in_failed := False, in_ops_left := device_step (in_ops_left s)\<rparr>"
    using s1 su(3) by simp
  show "\<not> in_failed s" "\<not> device_fails (in_ops_left s)" "in_pos s + 54 \<le> length (in_data s)"
    using su by auto
qed

lemma load_color_table_ok:
  assumes "load_color_table s h [] = (ok, table, s')" "hdr_bits_per_pixel h = 8"
  defines "n \<equiv> (if hdr_num_colors h = 0 then 256 else unat (hdr_num_colors h))"
  shows "table = entries_of_bytes
                   (take (n * 4) (drop (unat (hdr_bitmap_info_header_size h + 14)) (in_data s)))"
    "\<not> in_failed s'" "in_data s' = in_data s" "\<not> in_failed s"
    "unat (hdr_bitmap_info_header_size h + 14) + n * 4 \<le> length (in_data s)"
    "in_ops_left s' = device_step (device_step (in_ops_left s))"
    "\<not> device_fails (in_ops_left s)" "\<not> device_fails (device_step (in_ops_left s))"
proof -
  let ?off = "unat (hdr_bitmap_info_header_size h + 14)"
  let ?s1 = "istream_seekg ?off s"
  have nf1: "\<not> in_failed ?s1"
    using assms(1) unfolding load_color_table_def by (auto simp: Let_def split: if_splits)
  note sk = istream_seekg_success[OF nf1]
  have t1: "(if hdr_num_colors h \<noteq> 0
                    then resize_table (unat (hdr_num_colors h)) []
                  else if hdr_num_colors h = 0 \<and> hdr_bits_per_pixel h = 1
                    then resize_table 1 []
                  else if hdr_num_colors h = 0 \<and> hdr_bits_per_pixel h = 4
                    then resize_table 16 []
                  else if hdr_num_colors h = 0 \<and> hdr_bits_per_pixel h = 8
                    then resize_table 256 []
                  else []) = replicate n color_table_entry_zero"
    using assms(2) by (auto simp: n_def resize_table_Nil)
  have npos: "0 < n" unfolding n_def by (auto simp: unat_gt_0)
  obtain bytes s2 where rd: "istream_read (n * 4) ?s1 = (bytes, s2)"
    by (cases "istream_read (n * 4) ?s1") auto
  have res: "\<not> in_failed s2 \<and> s' = s2 \<and>
     table = entries_of_bytes (overlay bytes (color_table_bytes (replicate n color_table_entry_zero)))"
    using assms(1) nf1 npos unfolding load_color_table_def t1 Let_def
    by (auto simp: rd split: if_splits)
  then have nf2: "\<not> in_failed s2" by simp
  have n4: "0 < n * 4" using npos by simp
  note su = istream_read_success[OF rd nf2]
  have ov: "overlay bytes (color_table_bytes (replicate n color_table_entry_zero)) = bytes"
    by (rule overlay_full) (simp add: su(2) length_color_table_bytes)
  show "table = entries_of_bytes (take (n * 4) (drop ?off (in_data s)))"
    using res ov su(1) sk(1) by simp
  show "\<not> in_failed s'" using res by simp
  show "in_data s' = in_data s" using res su(3) sk(1) by simp
  show "\<not> in_failed s" by (rule sk(2))
  show "?off + n * 4 \<le> length (in_data s)" using su(6)[OF n4] sk(1) by simp
  show "in_ops_left s' = device_step (device_step (in_ops_left s))"
    using res su(3) sk(1) by simp
  show "\<not> device_fails (in_ops_left s)" by (rule sk(3))
  show "\<not> device_fails (device_step (in_ops_left s))" using su(5) sk(1) by simp
qed


lemma determine_image_properties_eq:
  assumes "header_verdict h = ok"
  shows "determine_image_properties h table P = Some (properties_of_header h table)"
  using determine_image_properties_ok[OF assms, of table P]
  by (auto simp: properties_of_header_def)

lemma load_image_properties_ok:
  assumes "load_image_properties s bmp_header_zero [] P = Some (ok, s', h, table, P')"
  shows "in_is_open s"
    "h = parse_bmp_header (take 54 (drop (in_pos s) (in_data s)))"
    "header_verdict h = ok"
    "hdr_bits_per_pixel h = 8 \<Longrightarrow>
       table = entries_of_bytes
         (take ((if hdr_num_colors h = 0 then 256 else unat (hdr_num_colors h)) * 4)
            (drop (unat (hdr_bitmap_info_header_size h + 14)) (in_data s)))"
    "hdr_bits_per_pixel h \<noteq> 8 \<Longrightarrow> table = []"
    "P' = properties_of_header h table"
    "\<not> in_failed s'" "in_data s' = in_data s"
proof -
  show op: "in_is_open s"
    using assms unfolding load_image_properties_def
    by (auto simp: Let_def is_ok_def split: if_splits prod.splits Option.bind_splits)
  obtain res1 h1 s1 where lh: "load_and_check_header s bmp_header_zero = Some (res1, h1, s1)"
    using assms op unfolding load_image_properties_def
    by (auto split: Option.bind_splits)
  have r1: "res1 = ok" and hh: "h1 = h"
    using assms op unfolding load_image_properties_def lh
    by (auto simp: Let_def is_ok_def split: if_splits prod.splits Option.bind_splits
        simp: load_color_table_def)
  note lh' = lh[unfolded r1 hh]
  note hp = load_and_check_header_parsed[OF lh']
  show "h = parse_bmp_header (take 54 (drop (in_pos s) (in_data s)))" by (rule hp(1))
  show v: "header_verdict h = ok" by (rule load_and_check_header_ok(1)[OF lh'])
  have nf1: "\<not> in_failed s1" by (rule load_and_check_header_ok(2)[OF lh'])
  have d1: "in_data s1 = in_data s" using hp(2) by simp
  show "P' = properties_of_header h table"
    using assms op unfolding load_image_properties_def lh'
    by (auto simp: Let_def is_ok_def determine_image_properties_eq[OF v]
        split: if_splits prod.splits)
  show "hdr_bits_per_pixel h \<noteq> 8 \<Longrightarrow> table = []"
    using assms op unfolding load_image_properties_def lh'
    by (auto simp: Let_def is_ok_def determine_image_properties_eq[OF v]
        split: if_splits prod.splits)
  have n8: "hdr_bits_per_pixel h \<noteq> 8 \<Longrightarrow> s' = s1"
    using assms op unfolding load_image_properties_def lh'
    by (auto simp: Let_def is_ok_def determine_image_properties_eq[OF v]
        split: if_splits prod.splits)
  have c8: "hdr_bits_per_pixel h = 8 \<Longrightarrow> load_color_table s1 h [] = (ok, table, s')"
    using assms op unfolding load_image_properties_def lh'
    by (auto simp: Let_def is_ok_def determine_image_properties_eq[OF v]
        split: if_splits prod.splits)
  show "hdr_bits_per_pixel h = 8 \<Longrightarrow>
       table = entries_of_bytes
         (take ((if hdr_num_colors h = 0 then 256 else unat (hdr_num_colors h)) * 4)
            (drop (unat (hdr_bitmap_info_header_size h + 14)) (in_data s)))"
    using load_color_table_ok(1)[OF c8] d1 by simp
  show "\<not> in_failed s'"
    using load_color_table_ok(2)[OF c8] n8 nf1 by (cases "hdr_bits_per_pixel h = 8") auto
  show "in_data s' = in_data s"
    using load_color_table_ok(3)[OF c8] n8 d1 by (cases "hdr_bits_per_pixel h = 8") auto
qed

lemma for_lines_result:
  assumes "\<And>line st st' e. body line st = Some (st', Some e) \<Longrightarrow> e \<in> E"
    and "for_lines body ls res0 st = Some (res, st1)"
  shows "res = res0 \<or> res \<in> E"
  using assms(2)
proof (induction ls arbitrary: st)
  case Nil
  then show ?case by simp
next
  case (Cons l ls)
  show ?case
  proof (cases "body l st")
    case None
    then show ?thesis using Cons.prems by simp
  next
    case (Some a)
    obtain st' e where a: "a = (st', e)" by (cases a) auto
    show ?thesis
    proof (cases e)
      case None
      then show ?thesis using Cons.prems Some a Cons.IH[of st'] by simp
    next
      case (Some err)
      then show ?thesis using Cons.prems \<open>body l st = Some a\<close> a assms(1)[of l st st' err] by simp
    qed
  qed
qed

lemma skip_line_padding_error:
  "skip_line_padding p file = (file', Some e) \<Longrightarrow> e = file_write_error"
  unfolding skip_line_padding_def by (auto simp: Let_def split: if_splits)

lemma load_line_direct_error:
  "load_line_direct so h sf sb p line st = Some (st', Some e) \<Longrightarrow>
     e \<in> {file_read_error, file_write_error}"
  unfolding load_line_direct_def
  by (auto simp: Let_def split: prod.splits if_splits Option.bind_splits
      dest: skip_line_padding_error)

lemma load_line_mono8_error:
  "load_line_mono8 lin hdr tab so h sf sb p line st = Some (st', Some e) \<Longrightarrow>
     e \<in> {file_read_error, file_write_error}"
  unfolding load_line_mono8_def
  by (auto simp: Let_def split: prod.splits if_splits Option.bind_splits
      dest: skip_line_padding_error)

lemma load_line_indexed_error:
  "load_line_indexed hdr tab so h sf sb line st = Some (st', Some e) \<Longrightarrow>
     e \<in> {file_read_error, file_write_error}"
  unfolding load_line_indexed_def
  by (auto simp: Let_def split: prod.splits if_splits Option.bind_splits)

lemma load_pixels_result:
  assumes "load_pixels h table P oif sf sb p buf file = Some (res, buf', file')"
  shows "res \<in> {ok, file_read_error, file_write_error, unsupported_bit_per_pixel}"
proof -
  have "res = ok \<or> res \<in> {file_read_error, file_write_error} \<or> res = unsupported_bit_per_pixel"
    using assms unfolding load_pixels_def Let_def
    by (auto split: if_splits
        dest!: for_lines_result[rotated, where E = "{file_read_error, file_write_error}"]
        dest: load_line_direct_error load_line_mono8_error load_line_indexed_error)
  then show ?thesis by auto
qed

lemma load_pixels_supported:
  assumes "load_pixels h table P oif sf sb p buf file = Some (res, buf', file')"
    and "hdr_bits_per_pixel h = 8 \<or> hdr_bits_per_pixel h = 24 \<or> hdr_bits_per_pixel h = 32"
    and "pixel_format P = (if hdr_bits_per_pixel h = 8
                      then (if check_is_mono8 table then Mono8 else BGR8)
                      else if hdr_bits_per_pixel h = 24 then BGR8 else BGRA8)"
  shows "res \<in> {ok, file_read_error, file_write_error}"
proof -
  have "res \<noteq> unsupported_bit_per_pixel \<or> res \<in> {file_read_error, file_write_error}"
    using assms unfolding load_pixels_def Let_def
    by (auto split: if_splits
        dest!: for_lines_result[rotated, where E = "{file_read_error, file_write_error}"]
        dest: load_line_direct_error load_line_mono8_error load_line_indexed_error)
  then show ?thesis using load_pixels_result[OF assms(1)] by auto
qed

lemma requested_layout_format [simp]:
  "pixel_format (requested_layout P1 P flp fo) = pixel_format P1"
  "width (requested_layout P1 P flp fo) = width P1"
  "height (requested_layout P1 P flp fo) = height P1"
  "line_padding (requested_layout P1 P flp fo) = (if flp then line_padding P else line_padding P1)"
  "orientation (requested_layout P1 P flp fo) = (if fo then orientation P else orientation P1)"
  by (simp_all add: requested_layout_def Let_def)

lemma load_arguments:
  "load fs None bufo n P flp fo = Some (null_argument, bufo, P)"
  "load fs fn None n P flp fo = Some (null_argument, None, P)"
  "fo \<Longrightarrow> orientation P = orientation_invalid \<Longrightarrow>
     load fs (Some name) (Some buf) n P flp fo = Some (invalid_argument, Some buf, P)"
  by (simp_all add: load_def split: option.splits)

lemma load_property_failure:
  assumes "\<not> (fo \<and> orientation P = orientation_invalid)"
    and "load_image_properties (ifstream_open fs name) bmp_header_zero [] P
           = Some (res1, s1, h, table, P1)"
    and "res1 \<noteq> ok"
  shows "load fs (Some name) (Some buf) n P flp fo = Some (res1, Some buf, P1)"
proof -
  have c: "(fo \<and> orientation P = orientation_invalid) = False" using assms(1) by simp
  show ?thesis unfolding load_def using assms(2,3) by (simp add: c is_ok_def)
qed

lemma load_property_success:
  assumes "\<not> (fo \<and> orientation P = orientation_invalid)"
    and "load_image_properties (ifstream_open fs name) bmp_header_zero [] P
           = Some (ok, s1, h, table, P1)"
  shows "load fs (Some name) (Some buf) n P flp fo =
     do {
       stride_in_file \<leftarrow> determine_stride_bpp (hdr_bits_per_pixel h) (hdr_width h);
       stride_in_buffer \<leftarrow> determine_stride_props (requested_layout P1 P flp fo);
       line_padding_in_file \<leftarrow> determine_line_padding (hdr_bits_per_pixel h) (hdr_width h);
       if stride_in_buffer * int_to_size_t (abs_i32 (hdr_height h)) > n
       then Some (buffer_too_small, Some buf, requested_layout P1 P flp fo)
       else if in_failed (istream_seekg (unat (hdr_offset h)) s1)
       then Some (file_read_error, Some buf, requested_layout P1 P flp fo)
       else do {
         (result1, buf1, file2) \<leftarrow>
           load_pixels h table (requested_layout P1 P flp fo) (orientation P1)
             stride_in_file stride_in_buffer line_padding_in_file buf
             (istream_seekg (unat (hdr_offset h)) s1);
         Some (result1, Some buf1, requested_layout P1 P flp fo)
       }
     }"
proof -
  have c: "(fo \<and> orientation P = orientation_invalid) = False" using assms(1) by simp
  have rl: "(if fo then (if flp then P1\<lparr>line_padding := line_padding P\<rparr> else P1)
                     \<lparr>orientation := orientation P\<rparr>
            else if flp then P1\<lparr>line_padding := line_padding P\<rparr> else P1)
            = requested_layout P1 P flp fo"
    by (simp add: requested_layout_def Let_def)
  show ?thesis unfolding load_def Let_def requested_layout_def using assms(2) c
    by (cases flp; cases fo) (simp_all add: is_ok_def)
qed

lemma load_success_result:
  assumes nf: "\<not> (fo \<and> orientation P = orientation_invalid)"
    and lip: "load_image_properties (ifstream_open fs name) bmp_header_zero [] P
           = Some (ok, s1, h, table, P1)"
    and ld: "load fs (Some name) (Some buf) n P flp fo = Some (res, bufo', P')"
  shows "P' = requested_layout P1 P flp fo"
    "res \<in> {ok, buffer_too_small, file_read_error, file_write_error}"
proof -
  note ok = load_image_properties_ok[OF lip]
  have pf: "pixel_format (requested_layout P1 P flp fo) = (if hdr_bits_per_pixel h = 8
                      then (if check_is_mono8 table then Mono8 else BGR8)
                      else if hdr_bits_per_pixel h = 24 then BGR8 else BGRA8)"
    using ok(6) by (simp add: properties_of_header_def)
  have st: "P' = requested_layout P1 P flp fo \<and>
     (res \<in> {buffer_too_small, file_read_error}
      \<or> (\<exists>sf sb p file buf1 file2. load_pixels h table (requested_layout P1 P flp fo)
            (orientation P1) sf sb p buf file = Some (res, buf1, file2)))"
    using ld unfolding load_property_success[OF nf lip]
    by (auto split: if_splits Option.bind_splits)
  then show "P' = requested_layout P1 P flp fo" by simp
  from st have "res \<in> {buffer_too_small, file_read_error}
      \<or> (\<exists>sf sb p file buf1 file2. load_pixels h table (requested_layout P1 P flp fo)
            (orientation P1) sf sb p buf file = Some (res, buf1, file2))" by simp
  then show "res \<in> {ok, buffer_too_small, file_read_error, file_write_error}"
  proof
    assume "res \<in> {buffer_too_small, file_read_error}"
    then show ?thesis by auto
  next
    assume "\<exists>sf sb p file buf1 file2. load_pixels h table (requested_layout P1 P flp fo)
            (orientation P1) sf sb p buf file = Some (res, buf1, file2)"
    then obtain sf sb p fl buf1 file2 where
      "load_pixels h table (requested_layout P1 P flp fo)
            (orientation P1) sf sb p buf fl = Some (res, buf1, file2)" by blast
    from load_pixels_supported[OF this header_verdict_ok(3)[OF ok(3)] pf]
    show ?thesis by auto
  qed
qed

lemma abs_i32_eq_0: "(abs_i32 x = 0) = (x = 0)"
  by (simp add: abs_i32_def)

lemma properties_of_header_valid:
  assumes v: "header_verdict h = ok"
  shows "0 < unat (width (properties_of_header h table))"
    "0 < unat (height (properties_of_header h table))"
    "pixel_format (properties_of_header h table) \<in> {Mono8, BGR8, BGRA8}"
    "orientation (properties_of_header h table) \<in> {top_down, bottom_up}"
    "unat (line_padding (properties_of_header h table)) \<le> 3"
proof -
  note ok = header_verdict_ok[OF v]
  have "hdr_width h \<noteq> 0" using ok(1) by auto
  then show "0 < unat (width (properties_of_header h table))"
    by (simp add: properties_of_header_def unat_gt_0)
  have "hdr_height h \<noteq> 0" using ok(2) by auto
  then show "0 < unat (height (properties_of_header h table))"
    by (simp add: properties_of_header_def unat_gt_0 abs_i32_eq_0)
  show "pixel_format (properties_of_header h table) \<in> {Mono8, BGR8, BGRA8}"
    by (simp add: properties_of_header_def)
  show "orientation (properties_of_header h table) \<in> {top_down, bottom_up}"
    by (simp add: properties_of_header_def)
  show "unat (line_padding (properties_of_header h table)) \<le> 3"
    using determine_image_properties_ok[OF v, of table undefined]
    by (auto simp: properties_of_header_def)
qed

lemma load_properties_ok:
  assumes "load_properties fs filename P = Some (ok, P')"
  shows "\<exists>name s h table. filename = Some name \<and>
     load_image_properties (ifstream_open fs name) bmp_header_zero [] P = Some (ok, s, h, table, P')"
  using assms unfolding load_properties_def
  by (auto split: option.splits Option.bind_splits)

lemma load_ok:
  assumes "load fs filename buffer n P flp fo = Some (ok, buffer', P')"
  shows "\<exists>name buf s h table P1. filename = Some name \<and> buffer = Some buf
     \<and> \<not> (fo \<and> orientation P = orientation_invalid)
     \<and> load_image_properties (ifstream_open fs name) bmp_header_zero [] P = Some (ok, s, h, table, P1)
     \<and> P' = requested_layout P1 P flp fo"
proof -
  obtain name where fn: "filename = Some name"
    using assms load_arguments(1)[of fs buffer n P flp fo] by (cases filename) auto
  obtain buf where bf: "buffer = Some buf"
    using assms load_arguments(2)[of fs filename n P flp fo] by (cases buffer) auto
  have nf: "\<not> (fo \<and> orientation P = orientation_invalid)"
    using assms load_arguments(3)[of fo P fs name buf n flp] unfolding fn bf by auto
  obtain res1 s h table P1 where lip:
    "load_image_properties (ifstream_open fs name) bmp_header_zero [] P = Some (res1, s, h, table, P1)"
    using assms nf unfolding fn bf load_def
    by (auto split: Option.bind_splits if_splits)
  have r1: "res1 = ok"
    using load_property_failure[OF nf lip, of buf n flp] assms unfolding fn bf by auto
  note lip' = lip[unfolded r1]
  have "P' = requested_layout P1 P flp fo"
    using load_success_result(1)[OF nf lip' assms[unfolded fn bf]] .
  then show ?thesis using fn bf nf lip' by blast
qed

text \<open>
  Claim C10. A load that returns Ok leaves valid properties: width and height are
  positive, the pixel format is Mono8, BGR8 or BGRA8 and the orientation is top-down or
  bottom-up. The line padding is the file's, between 0 and 3, unless
  \<open>force_line_padding\<close> put the caller's value there; a forced orientation is the
  caller's, which the argument check has already found valid.
\<close>

theorem load_ok_properties_valid:
  "(load_properties fs filename P = Some (ok, P') \<longrightarrow>
      0 < unat (width P') \<and> 0 < unat (height P')
      \<and> pixel_format P' \<in> {Mono8, BGR8, BGRA8}
      \<and> orientation P' \<in> {top_down, bottom_up}
      \<and> unat (line_padding P') \<le> 3)
   \<and> (load fs filename buffer n Q force_line_padding force_orientation = Some (ok, buffer', Q') \<longrightarrow>
      0 < unat (width Q') \<and> 0 < unat (height Q')
      \<and> pixel_format Q' \<in> {Mono8, BGR8, BGRA8}
      \<and> orientation Q' \<in> {top_down, bottom_up}
      \<and> (if force_line_padding then line_padding Q' = line_padding Q
          else unat (line_padding Q') \<le> 3)
      \<and> (force_orientation \<longrightarrow> orientation Q' = orientation Q))"
proof (intro conjI impI)
  assume a: "load_properties fs filename P = Some (ok, P')"
  then obtain name s h table where
    lip: "load_image_properties (ifstream_open fs name) bmp_header_zero [] P = Some (ok, s, h, table, P')"
    using load_properties_ok by blast
  note ok = load_image_properties_ok[OF lip]
  note va = properties_of_header_valid[OF ok(3), of table, folded ok(6)]
  show "0 < unat (width P')" by (rule va(1))
  show "0 < unat (height P')" by (rule va(2))
  show "pixel_format P' \<in> {Mono8, BGR8, BGRA8}" by (rule va(3))
  show "orientation P' \<in> {top_down, bottom_up}" by (rule va(4))
  show "unat (line_padding P') \<le> 3" by (rule va(5))
next
  assume a: "load fs filename buffer n Q force_line_padding force_orientation = Some (ok, buffer', Q')"
  then obtain name buf s h table P1 where
    nf: "\<not> (force_orientation \<and> orientation Q = orientation_invalid)"
    and lip: "load_image_properties (ifstream_open fs name) bmp_header_zero [] Q = Some (ok, s, h, table, P1)"
    and q: "Q' = requested_layout P1 Q force_line_padding force_orientation"
    using load_ok by blast
  note ok = load_image_properties_ok[OF lip]
  note va = properties_of_header_valid[OF ok(3), of table, folded ok(6)]
  show "0 < unat (width Q')" using va(1) q by simp
  show "0 < unat (height Q')" using va(2) q by simp
  show "pixel_format Q' \<in> {Mono8, BGR8, BGRA8}" using va(3) q by simp
  show "orientation Q' \<in> {top_down, bottom_up}"
    using va(4) q nf by (cases "orientation Q") auto
  show "if force_line_padding then line_padding Q' = line_padding Q
          else unat (line_padding Q') \<le> 3" using va(5) q by simp
  show "orientation Q' = orientation Q" if "force_orientation" using that q by simp
qed

lemmas load_eval =
  load_def load_properties_def load_image_properties_def load_and_check_header_def
  check_header_def load_color_table_def determine_image_properties_def load_pixels_def
  load_line_direct_def load_line_mono8_def load_line_indexed_def skip_line_padding_def
  buffer_row_offset_def buffer_store_def buffer_fetch_def overlay_def
  ifstream_open_def istream_read_def istream_seekg_def istream_seekg_cur_def
  device_fails_def device_step_def is_ok_def
  parse_bmp_header_def bmp_header_bytes_def bmp_header_zero_def sizeof_bmp_header_def
  rd16_def rd32_def le16_def le32_def
  determine_stride_bpp_def determine_line_padding_def determine_stride_props_def
  byte_per_pixel_in_file_def int_to_size_t_def abs_i32_def int_loop_count_def
  word_sless_alt word_sle_eq Let_def







text \<open>
  Claim C6 at its failing input: the 1 x 1 24-bit file on a device that completes three
  stream operations (header read, seek to the pixel data, read of the line) and fails the
  fourth, the skip over the padding byte of the line. The load reports
  \<open>file_write_error\<close>, where the claim has FileReadError.
\<close>

theorem load_padding_skip_failure:
  "load (example_fs (Some 3)) (Some ''a.bmp'') (Some [9, 9, 9, 9]) 4
     image_properties_default False False
   = Some (file_write_error, Some [1, 2, 3, 9], example_bgr8_properties)"
  by (simp add: load_eval example_fs_def example_bgr8_file_def example_bgr8_properties_def
      image_properties_default_def)

text \<open>
  Claim C10 at the 1 x 1 24-bit example file.
\<close>

theorem load_ok_properties_valid_witness:
  "load (example_fs None) (Some ''a.bmp'') (Some [9, 9, 9, 9]) 4
     image_properties_default False False
   = Some (ok, Some [1, 2, 3, 9], example_bgr8_properties)
   \<and> 0 < unat (width example_bgr8_properties)
   \<and> unat (line_padding example_bgr8_properties) \<le> 3
   \<and> load_properties (example_fs None) (Some ''a.bmp'') image_properties_default
       = Some (ok, example_bgr8_properties)"
  using load_ok_properties_valid
    [where fs = "example_fs None" and filename = "Some ''a.bmp''"
       and P = image_properties_default and P' = example_bgr8_properties
       and buffer = "Some [9, 9, 9, 9]" and n = 4 and Q = image_properties_default
       and force_line_padding = False and force_orientation = False
       and buffer' = "Some [1, 2, 3, 9]" and Q' = example_bgr8_properties]
  by (simp add: load_eval example_fs_def example_bgr8_file_def example_bgr8_properties_def
      image_properties_default_def)

section \<open>Pixel transfer: decoding\<close>

lemma open_at_simps [simp]:
  "in_is_open (open_at data p)" "in_data (open_at data p) = data" "in_pos (open_at data p) = p"
  "\<not> in_failed (open_at data p)" "in_ops_left (open_at data p) = None"
  by (simp_all add: open_at_def)

lemma istream_read_open_at:
  "p + n \<le> length data \<Longrightarrow>
   istream_read n (open_at data p) = (take n (drop p data), open_at data (p + n))"
  by (auto simp: istream_read_def open_at_def device_fails_def device_step_def Let_def min_def)

lemma istream_seekg_open_at: "istream_seekg q (open_at data p) = open_at data q"
  by (simp add: istream_seekg_def open_at_def device_fails_def device_step_def)

lemma istream_seekg_cur_open_at: "istream_seekg_cur d (open_at data p) = open_at data (p + d)"
  by (simp add: istream_seekg_cur_def open_at_def device_fails_def device_step_def)

lemma ifstream_open_open_at:
  "files fs name = Some data \<Longrightarrow> io_limit fs = None \<Longrightarrow> ifstream_open fs name = open_at data 0"
  by (simp add: ifstream_open_def open_at_def)

lemma buffer_store_Some:
  "off + length bytes \<le> length buf \<Longrightarrow> buffer_store buf off bytes = Some (store_at buf off bytes)"
  by (simp add: buffer_store_def store_at_def)

lemma length_store_at:
  "off + length bytes \<le> length buf \<Longrightarrow> length (store_at buf off bytes) = length buf"
  by (simp add: store_at_def)

lemma nth_store_at:
  assumes "off + length bytes \<le> length buf" "j < length buf"
  shows "store_at buf off bytes ! j =
           (if off \<le> j \<and> j < off + length bytes then bytes ! (j - off) else buf ! j)"
  using assms by (auto simp: store_at_def nth_append min_def)

lemma take_drop_store_at:
  "off + length bytes \<le> length buf \<Longrightarrow> take (length bytes) (drop off (store_at buf off bytes)) = bytes"
  by (simp add: store_at_def)

lemma store_at_twice:
  "length bytes' = length bytes \<Longrightarrow> off + length bytes \<le> length buf \<Longrightarrow>
   store_at (store_at buf off bytes) off bytes' = store_at buf off bytes'"
  by (simp add: store_at_def)

lemma for_lines_upt:
  assumes "\<And>i. a \<le> i \<Longrightarrow> i < n \<Longrightarrow> body i (S i) = Some (S (Suc i), None)" and "a \<le> n"
  shows "for_lines body [a..<n] res (S a) = Some (res, S n)"
  using assms
proof (induction "n - a" arbitrary: a)
  case 0
  then show ?case by simp
next
  case (Suc d)
  then have lt: "a < n" by simp
  have step: "body a (S a) = Some (S (Suc a), None)" using Suc.prems(1)[of a] lt by simp
  have rest: "for_lines body [Suc a..<n] res (S (Suc a)) = Some (res, S n)"
    using Suc.hyps(1)[of "Suc a"] Suc.hyps(2) Suc.prems(1) lt by simp
  show ?case using lt step rest by (simp add: upt_conv_Cons)
qed

lemma length_place_rows:
  assumes "\<And>i. i < n \<Longrightarrow> off i + length (rows i) \<le> length buf"
  shows "length (place_rows off rows n buf) = length buf"
  using assms
proof (induction n)
  case 0
  then show ?case by simp
next
  case (Suc n)
  have l: "length (place_rows off rows n buf) = length buf" using Suc by simp
  have "off n + length (rows n) \<le> length (place_rows off rows n buf)"
    using Suc.prems[of n] l by simp
  then show ?case using l by (simp add: length_store_at)
qed

lemma nth_place_rows_outside:
  assumes "\<And>i. i < n \<Longrightarrow> off i + length (rows i) \<le> length buf"
    and "j < length buf"
    and "\<And>i. i < n \<Longrightarrow> j < off i \<or> off i + length (rows i) \<le> j"
  shows "place_rows off rows n buf ! j = buf ! j"
  using assms
proof (induction n)
  case 0
  then show ?case by simp
next
  case (Suc n)
  have l: "length (place_rows off rows n buf) = length buf"
    using length_place_rows[of n off rows buf] Suc.prems(1) by simp
  have ih: "place_rows off rows n buf ! j = buf ! j"
    using Suc.IH Suc.prems by simp
  have b: "off n + length (rows n) \<le> length (place_rows off rows n buf)"
    using Suc.prems(1)[of n] l by simp
  have o: "j < off n \<or> off n + length (rows n) \<le> j" using Suc.prems(3)[of n] by simp
  show ?case using nth_store_at[OF b, of j] Suc.prems(2) l o ih by auto
qed

lemma nth_place_rows_inside:
  assumes "\<And>i. i < n \<Longrightarrow> off i + length (rows i) \<le> length buf"
    and "\<And>i k. i < n \<Longrightarrow> k < n \<Longrightarrow> i \<noteq> k \<Longrightarrow>
           off i + length (rows i) \<le> off k \<or> off k + length (rows k) \<le> off i"
    and "i < n" and "c < length (rows i)"
  shows "place_rows off rows n buf ! (off i + c) = rows i ! c"
  using assms
proof (induction n)
  case 0
  then show ?case by simp
next
  case (Suc n)
  have l: "length (place_rows off rows n buf) = length buf"
    using length_place_rows[of n off rows buf] Suc.prems(1) by simp
  have b: "off n + length (rows n) \<le> length (place_rows off rows n buf)"
    using Suc.prems(1)[of n] l by simp
  have jb: "off i + c < length buf" using Suc.prems(1)[of i] Suc.prems(3,4) by simp
  show ?case
  proof (cases "i = n")
    case True
    then show ?thesis using nth_store_at[OF b, of "off i + c"] jb l Suc.prems(4) by simp
  next
    case False
    then have lt: "i < n" using Suc.prems(3) by simp
    have ih: "place_rows off rows n buf ! (off i + c) = rows i ! c"
      using Suc.IH[OF _ _ lt Suc.prems(4)] Suc.prems(1,2) by simp
    have "off i + length (rows i) \<le> off n \<or> off n + length (rows n) \<le> off i"
      using Suc.prems(2)[of i n] lt by simp
    then have neg: "(off n \<le> off i + c \<and> off i + c < off n + length (rows n)) = False"
      using Suc.prems(4) by auto
    have "store_at (place_rows off rows n buf) (off n) (rows n) ! (off i + c)
            = place_rows off rows n buf ! (off i + c)"
      using nth_store_at[OF b, of "off i + c"] jb l unfolding neg by simp
    then show ?thesis using ih by simp
  qed
qed

lemma take_drop_place_rows:
  assumes "\<And>i. i < n \<Longrightarrow> off i + length (rows i) \<le> length buf"
    and "\<And>i k. i < n \<Longrightarrow> k < n \<Longrightarrow> i \<noteq> k \<Longrightarrow>
           off i + length (rows i) \<le> off k \<or> off k + length (rows k) \<le> off i"
    and "i < n"
  shows "take (length (rows i)) (drop (off i) (place_rows off rows n buf)) = rows i"
proof (rule nth_equalityI)
  have l: "length (place_rows off rows n buf) = length buf"
    using length_place_rows[of n off rows buf] assms(1) by simp
  show "length (take (length (rows i)) (drop (off i) (place_rows off rows n buf))) = length (rows i)"
    using l assms(1)[OF assms(3)] by simp
  fix c assume "c < length (take (length (rows i)) (drop (off i) (place_rows off rows n buf)))"
  then have c: "c < length (rows i)" by simp
  have "off i + c < length (place_rows off rows n buf)"
    using l assms(1)[OF assms(3)] c by simp
  then show "take (length (rows i)) (drop (off i) (place_rows off rows n buf)) ! c = rows i ! c"
    using c nth_place_rows_inside[of n off rows buf i c] assms by simp
qed

lemma unat_of_nat_32: "i < 2^32 \<Longrightarrow> unat (of_nat i :: 32 word) = i"
  by (simp add: unat_of_nat)

lemma unat_of_nat_64: "i < 2^64 \<Longrightarrow> unat (of_nat i :: 64 word) = i"
  by (simp add: unat_of_nat)

lemma unat_mirror_line:
  assumes "i < unat (hh :: 32 word)"
  shows "unat (hh - of_nat i - 1) = unat hh - 1 - i"
proof -
  have i32: "i < 2^32" using assms unat32_lt[of hh] by simp
  have ui: "unat (of_nat i :: 32 word) = i" by (rule unat_of_nat_32[OF i32])
  have le: "(of_nat i :: 32 word) \<le> hh" using assms ui by (simp add: word_le_nat_alt)
  have d: "unat (hh - of_nat i) = unat hh - i" using unat_sub[OF le] ui by simp
  have "(1 :: 32 word) \<le> hh - of_nat i" using d assms by (simp add: word_le_nat_alt)
  from unat_sub[OF this] show ?thesis using d by simp
qed

lemma unat_buffer_row_offset:
  assumes i: "i < unat hh" and nov: "unat hh * unat sb < 2^64"
  shows "unat (buffer_row_offset same hh i sb) = row_offset same (unat hh) (unat sb) i"
proof (cases same)
  case True
  have i64: "i < 2^64" using i unat32_lt[of hh] by simp
  have ui: "unat (of_nat i :: 64 word) = i" by (rule unat_of_nat_64[OF i64])
  have "i \<le> unat hh" using i by simp
  then have "i * unat sb \<le> unat hh * unat sb" by (rule mult_le_mono1)
  then have "i * unat sb < 2 ^ 64" using nov by (rule le_less_trans)
  then have "unat (of_nat i :: 64 word) * unat sb < 2 ^ LENGTH(64)" unfolding ui by simp
  then have "unat (of_nat i * sb) = unat (of_nat i :: 64 word) * unat sb"
    by (rule unat_mult_lem[THEN iffD1])
  then show ?thesis using True ui by (simp add: buffer_row_offset_def row_offset_def)
next
  case False
  have m: "unat (ucast (hh - of_nat i - 1) :: 64 word) = unat hh - 1 - i"
    using unat_mirror_line[OF i] by (simp add: unat_ucast_32_64)
  have "unat hh - 1 - i \<le> unat hh" by simp
  then have "(unat hh - 1 - i) * unat sb \<le> unat hh * unat sb" by (rule mult_le_mono1)
  then have "(unat hh - 1 - i) * unat sb < 2 ^ 64" using nov by (rule le_less_trans)
  then have "unat (ucast (hh - of_nat i - 1) :: 64 word) * unat sb < 2 ^ LENGTH(64)"
    unfolding m by simp
  then have "unat (ucast (hh - of_nat i - 1) * sb) = unat (ucast (hh - of_nat i - 1) :: 64 word) * unat sb"
    by (rule unat_mult_lem[THEN iffD1])
  then show ?thesis using False m by (simp add: buffer_row_offset_def row_offset_def)
qed

lemma row_offset_bound:
  assumes "i < h" "L \<le> stride"
  shows "row_offset same h stride i + L \<le> h * stride"
proof -
  have "\<exists>j < h. row_offset same h stride i = j * stride"
    using assms(1) by (cases same) (auto simp: row_offset_def intro: exI[of _ "h - 1 - i"])
  then obtain j where j: "j < h" "row_offset same h stride i = j * stride" by blast
  have "j * stride + stride \<le> h * stride"
    using j(1) by (metis Suc_leI mult_Suc mult_le_mono1 add.commute)
  then show ?thesis using j(2) assms(2) by simp
qed

lemma row_offset_disjoint:
  assumes "i < h" "k < h" "i \<noteq> k" "L \<le> stride"
  shows "row_offset same h stride i + L \<le> row_offset same h stride k
       \<or> row_offset same h stride k + L \<le> row_offset same h stride i"
proof -
  have *: "\<And>a c::nat. a < c \<Longrightarrow> a * stride + L \<le> c * stride"
  proof -
    fix a c :: nat assume "a < c"
    then have "Suc a * stride \<le> c * stride" by (intro mult_le_mono1) simp
    then show "a * stride + L \<le> c * stride" using assms(4) by simp
  qed
  show ?thesis
  proof (cases same)
    case True
    then show ?thesis using assms(3) *[of i k] *[of k i]
      by (cases "i < k") (auto simp: row_offset_def)
  next
    case False
    have "h - 1 - i < h - 1 - k \<or> h - 1 - k < h - 1 - i" using assms(1,2,3) by arith
    then show ?thesis using False *[of "h - 1 - i" "h - 1 - k"] *[of "h - 1 - k" "h - 1 - i"]
      by (auto simp: row_offset_def)
  qed
qed

lemma skip_line_padding_open_at:
  "skip_line_padding p (open_at data q) = (open_at data (q + unat p), None)"
  by (simp add: skip_line_padding_def istream_seekg_cur_open_at Let_def unat_eq_zero)

lemma load_line_direct_step:
  assumes "row_off = unat (buffer_row_offset same hh i sb)"
    and "unat (sf - p) = L"
    and "pos + L \<le> length data"
    and "row_off + L \<le> length cur"
  shows "load_line_direct same hh sf sb p i (cur, open_at data pos) =
           Some ((store_at cur row_off (take L (drop pos data)),
                  open_at data (pos + L + unat p)), None)"
proof -
  have len: "length (take L (drop pos data)) = L" using assms(3) by simp
  have st: "buffer_store cur row_off (take L (drop pos data))
              = Some (store_at cur row_off (take L (drop pos data)))"
    by (rule buffer_store_Some) (subst len, rule assms(4))
  show ?thesis
    unfolding load_line_direct_def
    by (simp add: Let_def assms(1)[symmetric] assms(2) istream_read_open_at[OF assms(3)] st
        skip_line_padding_open_at)
qed

lemma map_option_list_Some:
  "(\<And>x. x \<in> set xs \<Longrightarrow> f x = Some (h x)) \<Longrightarrow> map_option_list f xs = Some (map h xs)"
  by (induction xs) simp_all

lemma color_table_lookup:
  assumes "\<And>x. x \<in> set xs \<Longrightarrow> unat x < length table"
  shows "map_option_list (color_table_at table) xs = Some (map (\<lambda>x. table ! unat x) xs)"
  by (rule map_option_list_Some) (simp add: color_table_at_def assms)

lemma buffer_fetch_Some:
  "off + n \<le> length buf \<Longrightarrow> buffer_fetch buf off n = Some (take n (drop off buf))"
  by (simp add: buffer_fetch_def)

lemma load_line_mono8_step:
  assumes "row_off = unat (buffer_row_offset same hh i sb)"
    and "unat (sf - p) = L"
    and "pos + L \<le> length data"
    and "row_off + L \<le> length cur"
    and "int_loop_count (abs_i32 (hdr_width hdr)) = L"
    and "\<not> lin \<Longrightarrow> \<forall>x \<in> set (take L (drop pos data)). unat x < length table"
  shows "load_line_mono8 lin hdr table same hh sf sb p i (cur, open_at data pos) =
           Some ((store_at cur row_off
                    (if lin then take L (drop pos data)
                     else map (\<lambda>x. b (table ! unat x)) (take L (drop pos data))),
                  open_at data (pos + L + unat p)), None)"
proof -
  let ?bytes = "take L (drop pos data)"
  have len: "length ?bytes = L" using assms(3) by simp
  have st: "buffer_store cur row_off ?bytes = Some (store_at cur row_off ?bytes)"
    by (rule buffer_store_Some) (subst len, rule assms(4))
  have l1: "length (store_at cur row_off ?bytes) = length cur"
    by (rule length_store_at) (subst len, rule assms(4))
  have fe: "buffer_fetch (store_at cur row_off ?bytes) row_off L = Some ?bytes"
    using buffer_fetch_Some[of row_off L "store_at cur row_off ?bytes"] l1 assms(4)
      take_drop_store_at[of row_off ?bytes cur] len by simp
  show ?thesis
  proof (cases lin)
    case True
    then show ?thesis
      unfolding load_line_mono8_def
      by (simp add: Let_def assms(1)[symmetric] assms(2) istream_read_open_at[OF assms(3)] st
          skip_line_padding_open_at)
  next
    case False
    have lk: "map_option_list (color_table_at table) ?bytes = Some (map (\<lambda>x. table ! unat x) ?bytes)"
      by (rule color_table_lookup) (use assms(6)[OF False] in blast)
    have s2: "buffer_store (store_at cur row_off ?bytes) row_off (map b (map (\<lambda>x. table ! unat x) ?bytes))
        = Some (store_at cur row_off (map (\<lambda>x. b (table ! unat x)) ?bytes))"
    proof -
      have "buffer_store (store_at cur row_off ?bytes) row_off (map b (map (\<lambda>x. table ! unat x) ?bytes))
         = Some (store_at (store_at cur row_off ?bytes) row_off (map b (map (\<lambda>x. table ! unat x) ?bytes)))"
        by (rule buffer_store_Some) (simp only: l1 length_map len assms(4))
      moreover have "store_at (store_at cur row_off ?bytes) row_off (map b (map (\<lambda>x. table ! unat x) ?bytes))
         = store_at cur row_off (map b (map (\<lambda>x. table ! unat x) ?bytes))"
        by (rule store_at_twice) (simp_all only: length_map len assms(4))
      ultimately show ?thesis by (simp add: comp_def)
    qed
    show ?thesis
      unfolding load_line_mono8_def
      using False
      by (simp add: Let_def assms(1)[symmetric] assms(2) assms(5) istream_read_open_at[OF assms(3)] st
          fe lk s2 skip_line_padding_open_at del: map_map)
  qed
qed

lemma length_concat_triples:
  "length (concat (map (\<lambda>x. [f1 x, f2 x, f3 x]) xs)) = 3 * length xs"
  by (induction xs) simp_all

lemma load_line_indexed_step:
  assumes "row_off = unat (buffer_row_offset same hh i sb)"
    and "unat sf = FS"
    and "pos + FS \<le> length data"
    and "int_loop_count (abs_i32 (hdr_width hdr)) = W"
    and "W \<le> FS"
    and "row_off + 3 * W \<le> length cur"
    and "\<forall>x \<in> set (take W (drop pos data)). unat x < length table"
  shows "load_line_indexed hdr table same hh sf sb i (cur, open_at data pos) =
           Some ((store_at cur row_off
                    (concat (map (\<lambda>x. [b (table ! unat x), g (table ! unat x), r (table ! unat x)])
                       (take W (drop pos data)))),
                  open_at data (pos + FS)), None)"
proof -
  let ?bytes = "take FS (drop pos data)"
  let ?ix = "take W (drop pos data)"
  have len: "length ?bytes = FS" using assms(3) by simp
  have fe: "buffer_fetch ?bytes 0 W = Some ?ix"
    using buffer_fetch_Some[of 0 W ?bytes] len assms(5) by (simp add: min_def)
  have lk: "map_option_list (color_table_at table) ?ix = Some (map (\<lambda>x. table ! unat x) ?ix)"
    by (rule color_table_lookup) (use assms(7) in blast)
  have lw: "length ?ix = W" using assms(3,5) by simp
  have st: "buffer_store cur row_off
             (concat (map (\<lambda>entry. [b entry, g entry, r entry]) (map (\<lambda>x. table ! unat x) ?ix)))
        = Some (store_at cur row_off
                 (concat (map (\<lambda>x. [b (table ! unat x), g (table ! unat x), r (table ! unat x)]) ?ix)))"
  proof -
    have e: "concat (map (\<lambda>entry. [b entry, g entry, r entry]) (map (\<lambda>x. table ! unat x) ?ix))
       = concat (map (\<lambda>x. [b (table ! unat x), g (table ! unat x), r (table ! unat x)]) ?ix)"
      by (simp add: comp_def)
    show ?thesis unfolding e
      by (rule buffer_store_Some) (simp only: length_concat_triples lw assms(6))
  qed
  show ?thesis
    unfolding load_line_indexed_def
    using assms(3)
    by (auto simp add: Let_def assms(1)[symmetric] assms(2) assms(4) istream_read_open_at[OF assms(3)]
        fe lk st min_def simp del: map_map)
qed

lemma decode_loop:
  assumes step: "\<And>i cur. i < H \<Longrightarrow> length cur = length buf \<Longrightarrow>
       body i (cur, open_at data (p0 + i * FS))
         = Some ((store_at cur (off i) (rows i), open_at data (p0 + Suc i * FS)), None)"
    and inb: "\<And>i. i < H \<Longrightarrow> off i + length (rows i) \<le> length buf"
  shows "for_lines body [0..<H] res (buf, open_at data p0)
           = Some (res, (place_rows off rows H buf, open_at data (p0 + H * FS)))"
proof -
  let ?S = "\<lambda>i. (place_rows off rows i buf, open_at data (p0 + i * FS))"
  have "for_lines body [0..<H] res (?S 0) = Some (res, ?S H)"
  proof (rule for_lines_upt)
    fix i assume "0 \<le> i" and i: "i < H"
    have l: "length (place_rows off rows i buf) = length buf"
      by (rule length_place_rows) (use inb i in simp)
    show "body i (?S i) = Some (?S (Suc i), None)"
      using step[OF i l] by simp
  qed simp
  then show ?thesis by simp
qed

lemma header_geometry:
  assumes v: "header_verdict h = ok"
  shows "\<exists>sf p. determine_stride_bpp (hdr_bits_per_pixel h) (hdr_width h) = Some sf
           \<and> determine_line_padding (hdr_bits_per_pixel h) (hdr_width h) = Some p
           \<and> unat sf = file_stride h \<and> unat p = file_stride h - file_line_bytes h
           \<and> unat (sf - p) = file_line_bytes h"
    and "file_line_bytes h \<le> file_stride h" and "0 < file_line_bytes h"
    and "nat (sint (hdr_width h)) \<le> file_line_bytes h"
proof -
  note ok = header_verdict_ok[OF v]
  have w0: "0 \<le> sint (hdr_width h)" using ok(1) by simp
  obtain k where k: "byte_per_pixel_in_file (hdr_bits_per_pixel h) = Some k"
    using byte_per_pixel_in_file_Some[OF ok(3)] by blast
  have kb: "unat k = unat (hdr_bits_per_pixel h) div 8"
    using byte_per_pixel_in_file_cases[OF k] by auto
  have kpos: "0 < unat k" using byte_per_pixel_in_file_cases[OF k] by auto
  obtain sf where sf: "determine_stride_bpp (hdr_bits_per_pixel h) (hdr_width h) = Some sf"
    and usf: "unat sf = round_up4 (unat k * nat (sint (hdr_width h)))"
    using determine_stride_bpp_nat[OF k w0] by blast
  obtain p where p: "determine_line_padding (hdr_bits_per_pixel h) (hdr_width h) = Some p"
    and up: "unat p = round_up4 (unat k * nat (sint (hdr_width h))) - unat k * nat (sint (hdr_width h))"
    using determine_line_padding_nat[OF k w0] by blast
  have le: "file_line_bytes h \<le> file_stride h"
    unfolding file_stride_def by (rule round_up4_diff(2))
  then show "file_line_bytes h \<le> file_stride h" .
  have usf': "unat sf = file_stride h" using usf by (simp add: file_stride_def file_line_bytes_def kb)
  have up': "unat p = file_stride h - file_line_bytes h"
    using up by (simp add: file_stride_def file_line_bytes_def kb)
  have "p \<le> sf" using usf' up' by (simp add: word_le_nat_alt)
  from unat_sub[OF this] have "unat (sf - p) = file_line_bytes h"
    using usf' up' le by simp
  then show "\<exists>sf p. determine_stride_bpp (hdr_bits_per_pixel h) (hdr_width h) = Some sf
           \<and> determine_line_padding (hdr_bits_per_pixel h) (hdr_width h) = Some p
           \<and> unat sf = file_stride h \<and> unat p = file_stride h - file_line_bytes h
           \<and> unat (sf - p) = file_line_bytes h"
    using sf p usf' up' by blast
  have wp: "0 < nat (sint (hdr_width h))" using ok(1) by simp
  show "0 < file_line_bytes h" using kpos wp by (simp add: file_line_bytes_def kb[symmetric])
  show "nat (sint (hdr_width h)) \<le> file_line_bytes h"
    using kpos by (simp add: file_line_bytes_def kb[symmetric])
qed

lemma unat_of_nat_bytes_per_pixel: "unat (of_nat (bytes_per_pixel f) :: size_t) = bytes_per_pixel f"
  by (cases f) simp_all

lemma determine_stride_props_nat:
  assumes "pixel_format P \<noteq> pixel_format_invalid" and "buffer_stride P < 2^64"
  shows "\<exists>sb. determine_stride_props P = Some sb \<and> unat sb = buffer_stride P"
proof -
  let ?w = "ucast (width P) :: size_t"
  let ?k = "of_nat (bytes_per_pixel (pixel_format P)) :: size_t"
  have uw: "unat ?w = unat (width P)" by (rule unat_ucast_32_64)
  have uk: "unat ?k = bytes_per_pixel (pixel_format P)" by (rule unat_of_nat_bytes_per_pixel)
  have "unat ?w * unat ?k \<le> buffer_stride P"
    unfolding uw uk buffer_stride_def buffer_line_bytes_def by simp
  then have "unat ?w * unat ?k < 2 ^ LENGTH(64)" using assms(2) by simp
  then have m: "unat (?w * ?k) = unat ?w * unat ?k" by (rule unat_mult_lem[THEN iffD1])
  have "unat (?w * ?k) + unat (line_padding P) < 2 ^ LENGTH(64)"
    unfolding m uw uk using assms(2) by (simp add: buffer_stride_def buffer_line_bytes_def)
  then have "unat (?w * ?k + line_padding P) = unat (?w * ?k) + unat (line_padding P)"
    by (rule unat_add_lem[THEN iffD1])
  then have "unat (?w * ?k + line_padding P) = buffer_stride P"
    unfolding m uw uk by (simp add: buffer_stride_def buffer_line_bytes_def)
  then show ?thesis using determine_stride_props_valid[OF assms(1)] by simp
qed

lemma unat_eq_nat_sint:
  assumes "0 \<le> sint (x :: 32 word)"
  shows "unat x = nat (sint x)"
proof -
  have e: "x = word_of_int (sint x)" by simp
  have u: "unat (word_of_int (sint x) :: 32 word) = nat (sint x mod 2^32)"
    by (simp only: unat_eq_nat_uint uint_word_of_int) simp
  have "sint x mod 2^32 = sint x"
    using assms sint32_bounds(1)[of x] by (intro mod_pos_pos_trivial) auto
  then show ?thesis using u e by simp
qed

lemma file_height_facts:
  assumes "sint (hdr_height hdr) \<noteq> - (2^31)"
  shows "unat (abs_i32 (hdr_height hdr)) = file_height hdr"
    "int_loop_count (abs_i32 (hdr_height hdr)) = file_height hdr"
    "unat (int_to_size_t (abs_i32 (hdr_height hdr))) = file_height hdr"
proof -
  have a: "sint (abs_i32 (hdr_height hdr)) = \<bar>sint (hdr_height hdr)\<bar>"
    by (rule sint_abs_i32[OF assms])
  then have n: "0 \<le> sint (abs_i32 (hdr_height hdr))" by simp
  show "unat (abs_i32 (hdr_height hdr)) = file_height hdr"
    using unat_eq_nat_sint[OF n] a by (simp add: file_height_def)
  show "int_loop_count (abs_i32 (hdr_height hdr)) = file_height hdr"
    using a by (simp add: int_loop_count_def file_height_def)
  show "unat (int_to_size_t (abs_i32 (hdr_height hdr))) = file_height hdr"
    using unat_int_to_size_t_nonneg[OF n] a by (simp add: file_height_def)
qed

lemma file_width_facts:
  assumes "0 < sint (hdr_width hdr)"
  shows "abs_i32 (hdr_width hdr) = hdr_width hdr"
    "int_loop_count (abs_i32 (hdr_width hdr)) = nat (sint (hdr_width hdr))"
    "unat (hdr_width hdr) = nat (sint (hdr_width hdr))"
proof -
  show a: "abs_i32 (hdr_width hdr) = hdr_width hdr"
    using assms by (simp add: abs_i32_def word_sless_alt)
  show "int_loop_count (abs_i32 (hdr_width hdr)) = nat (sint (hdr_width hdr))"
    unfolding a by (simp add: int_loop_count_def)
  show "unat (hdr_width hdr) = nat (sint (hdr_width hdr))"
    by (rule unat_eq_nat_sint) (use assms in simp)
qed

lemma line_in_data:
  assumes "p0 + H * FS \<le> length data" "i < H" "L \<le> FS"
  shows "p0 + i * FS + L \<le> length data"
proof -
  have "Suc i * FS \<le> H * FS" using assms(2) by (intro mult_le_mono1) simp
  then show ?thesis using assms(1,3) by simp
qed

lemma load_pixels_direct:
  assumes bits: "hdr_bits_per_pixel hdr > 8"
    and pf: "pixel_format P = BGR8 \<or> pixel_format P = BGRA8"
    and hP: "unat (height P) = H"
    and sfp: "unat (sf - p) = L" and fs: "L + unat p = FS"
    and sb: "L \<le> unat sb"
    and nov: "H * unat sb < 2^64" and buf: "H * unat sb \<le> length buf"
    and data: "p0 + H * FS \<le> length data"
  shows "load_pixels hdr table P oif sf sb p buf (open_at data p0) =
     Some (ok, place_rows (row_offset (orientation P = oif) H (unat sb))
                 (\<lambda>i. take L (drop (p0 + i * FS) data)) H buf,
           open_at data (p0 + H * FS))"
proof -
  let ?same = "orientation P = oif"
  let ?off = "row_offset ?same H (unat sb)"
  let ?rows = "\<lambda>i. take L (drop (p0 + i * FS) data)"
  have LF: "L \<le> FS" using fs by simp
  have len: "\<And>i. i < H \<Longrightarrow> length (?rows i) = L"
  proof -
    fix i assume "i < H"
    from line_in_data[OF data this LF] show "length (?rows i) = L" by simp
  qed
  have inb: "\<And>i. i < H \<Longrightarrow> ?off i + length (?rows i) \<le> length buf"
    using row_offset_bound[OF _ sb, of _ H ?same] buf len by fastforce
  have "for_lines (load_line_direct ?same (height P) sf sb p) [0..<H] ok (buf, open_at data p0)
          = Some (ok, (place_rows ?off ?rows H buf, open_at data (p0 + H * FS)))"
  proof (rule decode_loop[OF _ inb])
    fix i and cur :: "byte list" assume i: "i < H" and lc: "length cur = length buf"
    have ro: "?off i = unat (buffer_row_offset ?same (height P) i sb)"
      using unat_buffer_row_offset[of i "height P" sb ?same] i nov hP by simp
    have d: "p0 + i * FS + L \<le> length data" by (rule line_in_data[OF data i LF])
    have b: "?off i + L \<le> length cur" using inb[OF i] len[OF i] lc by simp
    have "p0 + i * FS + L + unat p = p0 + Suc i * FS" using fs by simp
    then show "load_line_direct ?same (height P) sf sb p i (cur, open_at data (p0 + i * FS))
       = Some ((store_at cur (?off i) (?rows i), open_at data (p0 + Suc i * FS)), None)"
      using load_line_direct_step[OF ro sfp d b] by simp
  qed
  then show ?thesis
    unfolding load_pixels_def Let_def using bits pf hP by auto
qed

lemma load_pixels_mono8:
  assumes bits: "\<not> hdr_bits_per_pixel hdr > 8"
    and pf: "pixel_format P = Mono8"
    and hP: "unat (height P) = H" and hl: "int_loop_count (abs_i32 (hdr_height hdr)) = H"
    and wl: "int_loop_count (abs_i32 (hdr_width hdr)) = L"
    and sfp: "unat (sf - p) = L" and fs: "L + unat p = FS"
    and sb: "L \<le> unat sb"
    and nov: "H * unat sb < 2^64" and buf: "H * unat sb \<le> length buf"
    and data: "p0 + H * FS \<le> length data"
    and idx: "\<not> check_is_linear_mono8 table \<Longrightarrow>
                \<forall>i<H. \<forall>x \<in> set (take L (drop (p0 + i * FS) data)). unat x < length table"
  shows "load_pixels hdr table P oif sf sb p buf (open_at data p0) =
     Some (ok, place_rows (row_offset (orientation P = oif) H (unat sb))
                 (\<lambda>i. if check_is_linear_mono8 table then take L (drop (p0 + i * FS) data)
                      else map (\<lambda>x. b (table ! unat x)) (take L (drop (p0 + i * FS) data))) H buf,
           open_at data (p0 + H * FS))"
proof -
  let ?same = "orientation P = oif"
  let ?lin = "check_is_linear_mono8 table"
  let ?off = "row_offset ?same H (unat sb)"
  let ?rows = "\<lambda>i. if ?lin then take L (drop (p0 + i * FS) data)
                      else map (\<lambda>x. b (table ! unat x)) (take L (drop (p0 + i * FS) data))"
  have LF: "L \<le> FS" using fs by simp
  have len: "\<And>i. i < H \<Longrightarrow> length (?rows i) = L"
  proof -
    fix i assume "i < H"
    from line_in_data[OF data this LF] show "length (?rows i) = L" by simp
  qed
  have inb: "\<And>i. i < H \<Longrightarrow> ?off i + length (?rows i) \<le> length buf"
    using row_offset_bound[OF _ sb, of _ H ?same] buf len by fastforce
  have "for_lines (load_line_mono8 ?lin hdr table ?same (height P) sf sb p) [0..<H] ok
          (buf, open_at data p0)
          = Some (ok, (place_rows ?off ?rows H buf, open_at data (p0 + H * FS)))"
  proof (rule decode_loop[OF _ inb])
    fix i and cur :: "byte list" assume i: "i < H" and lc: "length cur = length buf"
    have ro: "?off i = unat (buffer_row_offset ?same (height P) i sb)"
      using unat_buffer_row_offset[of i "height P" sb ?same] i nov hP by simp
    have d: "p0 + i * FS + L \<le> length data" by (rule line_in_data[OF data i LF])
    have bb: "?off i + L \<le> length cur" using inb[OF i] len[OF i] lc by simp
    have ix: "\<not> ?lin \<Longrightarrow> \<forall>x \<in> set (take L (drop (p0 + i * FS) data)). unat x < length table"
      using idx i by blast
    have "p0 + i * FS + L + unat p = p0 + Suc i * FS" using fs by simp
    then show "load_line_mono8 ?lin hdr table ?same (height P) sf sb p i
                 (cur, open_at data (p0 + i * FS))
       = Some ((store_at cur (?off i) (?rows i), open_at data (p0 + Suc i * FS)), None)"
      using load_line_mono8_step[OF ro sfp d bb wl ix] by simp
  qed
  then show ?thesis
    unfolding load_pixels_def Let_def using bits pf hl by simp
qed

lemma load_pixels_indexed:
  assumes bits: "hdr_bits_per_pixel hdr = 8"
    and pf: "pixel_format P = BGR8"
    and hP: "unat (height P) = H" and hl: "int_loop_count (abs_i32 (hdr_height hdr)) = H"
    and wl: "int_loop_count (abs_i32 (hdr_width hdr)) = W"
    and sf: "unat sf = FS" and wfs: "W \<le> FS"
    and sb: "3 * W \<le> unat sb"
    and nov: "H * unat sb < 2^64" and buf: "H * unat sb \<le> length buf"
    and data: "p0 + H * FS \<le> length data"
    and idx: "\<forall>i<H. \<forall>x \<in> set (take W (drop (p0 + i * FS) data)). unat x < length table"
  shows "load_pixels hdr table P oif sf sb p buf (open_at data p0) =
     Some (ok, place_rows (row_offset (orientation P = oif) H (unat sb))
                 (\<lambda>i. concat (map (\<lambda>x. [b (table ! unat x), g (table ! unat x), r (table ! unat x)])
                                (take W (drop (p0 + i * FS) data)))) H buf,
           open_at data (p0 + H * FS))"
proof -
  let ?same = "orientation P = oif"
  let ?off = "row_offset ?same H (unat sb)"
  let ?rows = "\<lambda>i. concat (map (\<lambda>x. [b (table ! unat x), g (table ! unat x), r (table ! unat x)])
                                (take W (drop (p0 + i * FS) data)))"
  have len: "\<And>i. i < H \<Longrightarrow> length (?rows i) = 3 * W"
  proof -
    fix i assume "i < H"
    from line_in_data[OF data this wfs] show "length (?rows i) = 3 * W"
      by (simp add: length_concat_triples)
  qed
  have inb: "\<And>i. i < H \<Longrightarrow> ?off i + length (?rows i) \<le> length buf"
  proof -
    fix i assume i: "i < H"
    from row_offset_bound[OF i sb, of ?same] buf len[OF i]
    show "?off i + length (?rows i) \<le> length buf" by simp
  qed
  have "for_lines (load_line_indexed hdr table ?same (height P) sf sb) [0..<H] ok
          (buf, open_at data p0)
          = Some (ok, (place_rows ?off ?rows H buf, open_at data (p0 + H * FS)))"
  proof (rule decode_loop[OF _ inb])
    fix i and cur :: "byte list" assume i: "i < H" and lc: "length cur = length buf"
    have ro: "?off i = unat (buffer_row_offset ?same (height P) i sb)"
      using unat_buffer_row_offset[of i "height P" sb ?same] i nov hP by simp
    have "Suc i * FS \<le> H * FS" using i by (intro mult_le_mono1) simp
    then have d: "p0 + i * FS + FS \<le> length data" using data by simp
    have bb: "?off i + 3 * W \<le> length cur" using inb[OF i] len[OF i] lc by simp
    have ix: "\<forall>x \<in> set (take W (drop (p0 + i * FS) data)). unat x < length table"
      using idx i by blast
    show "load_line_indexed hdr table ?same (height P) sf sb i
                 (cur, open_at data (p0 + i * FS))
       = Some ((store_at cur (?off i) (?rows i), open_at data (p0 + Suc i * FS)), None)"
      using load_line_indexed_step[OF ro sf d wl wfs bb ix] by simp
  qed
  then show ?thesis
    unfolding load_pixels_def Let_def using bits pf hl by simp
qed

lemma load_and_check_header_open_at:
  assumes "p + 54 \<le> length data"
  shows "load_and_check_header (open_at data p) h0 =
           Some (header_verdict (parse_bmp_header (take 54 (drop p data))),
                 parse_bmp_header (take 54 (drop p data)), open_at data (p + 54))"
proof -
  have len: "length (take 54 (drop p data)) = length (bmp_header_bytes h0)"
    using assms by (simp add: length_bmp_header_bytes)
  show ?thesis
    unfolding load_and_check_header_def sizeof_bmp_header_def
    by (simp add: istream_read_open_at[OF assms] overlay_full[OF len] check_header_verdict Let_def)
qed

lemma load_color_table_open_at:
  assumes bits: "hdr_bits_per_pixel h = 8"
    and n: "n = (if hdr_num_colors h = 0 then 256 else unat (hdr_num_colors h))"
    and data: "unat (hdr_bitmap_info_header_size h + 14) + n * 4 \<le> length data"
  shows "load_color_table (open_at data p) h [] =
           (ok, entries_of_bytes
                  (take (n * 4) (drop (unat (hdr_bitmap_info_header_size h + 14)) data)),
            open_at data (unat (hdr_bitmap_info_header_size h + 14) + n * 4))"
proof -
  let ?off = "unat (hdr_bitmap_info_header_size h + 14)"
  have t1: "(if hdr_num_colors h \<noteq> 0
                    then resize_table (unat (hdr_num_colors h)) []
                  else if hdr_num_colors h = 0 \<and> hdr_bits_per_pixel h = 1
                    then resize_table 1 []
                  else if hdr_num_colors h = 0 \<and> hdr_bits_per_pixel h = 4
                    then resize_table 16 []
                  else if hdr_num_colors h = 0 \<and> hdr_bits_per_pixel h = 8
                    then resize_table 256 []
                  else []) = replicate n color_table_entry_zero"
    using bits by (auto simp: n resize_table_Nil)
  have npos: "0 < n" unfolding n by (auto simp: unat_gt_0)
  have len: "length (take (n * 4) (drop ?off data))
               = length (color_table_bytes (replicate n color_table_entry_zero))"
    using data by (simp add: length_color_table_bytes)
  show ?thesis
    unfolding load_color_table_def t1 istream_seekg_open_at
    using npos
    by (simp add: Let_def istream_read_open_at[OF data] overlay_full[OF len])
qed

lemma load_image_properties_open_at:
  assumes len: "54 \<le> length data"
    and h: "h = parse_bmp_header (take 54 data)"
    and v: "header_verdict h = ok"
    and ct: "hdr_bits_per_pixel h = 8 \<Longrightarrow>
               unat (hdr_bitmap_info_header_size h + 14)
                 + (if hdr_num_colors h = 0 then 256 else unat (hdr_num_colors h)) * 4
               \<le> length data"
    and tb: "table = (if hdr_bits_per_pixel h = 8 then file_color_table data else [])"
  shows "\<exists>pos. load_image_properties (open_at data 0) bmp_header_zero [] P =
           Some (ok, open_at data pos, h, table, properties_of_header h table)"
proof -
  have lh: "load_and_check_header (open_at data 0) bmp_header_zero = Some (ok, h, open_at data 54)"
    using load_and_check_header_open_at[of 0 data bmp_header_zero] len h v by simp
  show ?thesis
  proof (cases "hdr_bits_per_pixel h = 8")
    case True
    have fct: "file_color_table data = entries_of_bytes
           (take ((if hdr_num_colors h = 0 then 256 else unat (hdr_num_colors h)) * 4)
              (drop (unat (hdr_bitmap_info_header_size h + 14)) data))"
      unfolding file_color_table_def h[symmetric] Let_def by simp
    show ?thesis
      unfolding load_image_properties_def
      using True lh load_color_table_open_at[OF True refl ct[OF True], of 54]
      by (auto simp: is_ok_def determine_image_properties_eq[OF v] tb fct)
  next
    case False
    then show ?thesis
      unfolding load_image_properties_def
      using lh by (auto simp: is_ok_def determine_image_properties_eq[OF v] tb)
  qed
qed

lemma size_check_passes:
  assumes "unat sb = SB" "unat hs = H" "H * SB \<le> unat n"
  shows "\<not> (sb * hs > (n :: size_t))"
proof -
  have "unat sb * unat hs \<le> unat n" using assms by (simp add: mult.commute)
  moreover have "unat n < 2 ^ LENGTH(64)" by (rule unsigned_less)
  ultimately have lt: "unat sb * unat hs < 2 ^ LENGTH(64)" by (rule le_less_trans)
  then have "unat (sb * hs) = unat sb * unat hs" by (rule unat_mult_lem[THEN iffD1])
  then have "unat (sb * hs) \<le> unat n" using assms by (simp add: mult.commute)
  then show ?thesis by (simp add: word_less_nat_alt)
qed

lemma load_decodes:
  assumes fsys: "files fs name = Some data" "io_limit fs = None"
    and len: "54 \<le> length data"
    and h: "h = parse_bmp_header (take 54 data)"
    and v: "header_verdict h = ok"
    and hm: "sint (hdr_height h) \<noteq> - (2^31)"
    and ct: "hdr_bits_per_pixel h = 8 \<Longrightarrow>
               unat (hdr_bitmap_info_header_size h + 14)
                 + (if hdr_num_colors h = 0 then 256 else unat (hdr_num_colors h)) * 4
               \<le> length data"
    and tb: "table = (if hdr_bits_per_pixel h = 8 then file_color_table data else [])"
    and nf: "\<not> (fo \<and> orientation Q = orientation_invalid)"
    and P: "P = requested_layout (properties_of_header h table) Q flp fo"
    and st: "buffer_stride P < 2^64"
    and sz: "file_height h * buffer_stride P \<le> unat n"
    and bl: "unat n \<le> length buf"
    and data: "unat (hdr_offset h) + file_height h * file_stride h \<le> length data"
    and idx: "hdr_bits_per_pixel h = 8 \<Longrightarrow>
                \<not> (check_is_mono8 table \<and> check_is_linear_mono8 table) \<Longrightarrow>
                \<forall>i<file_height h. \<forall>x \<in> set (file_line h data (unat (hdr_offset h)) i).
                   unat x < length table"
  shows "load fs (Some name) (Some buf) n Q flp fo =
           Some (ok,
                 Some (place_rows
                         (row_offset (orientation P = orientation (properties_of_header h table))
                            (file_height h) (buffer_stride P))
                         (\<lambda>i. decode_line h table (pixel_format P)
                                (file_line h data (unat (hdr_offset h)) i))
                         (file_height h) buf),
                 P)"
proof -
  let ?P1 = "properties_of_header h table"
  let ?H = "file_height h" and ?FS = "file_stride h" and ?L = "file_line_bytes h"
  let ?p0 = "unat (hdr_offset h)"
  note ok = header_verdict_ok[OF v]
  obtain pos where lip: "load_image_properties (ifstream_open fs name) bmp_header_zero [] Q =
           Some (ok, open_at data pos, h, table, ?P1)"
    using load_image_properties_open_at[OF len h v ct tb, of Q]
    unfolding ifstream_open_open_at[OF fsys] by blast
  obtain sf p where sf: "determine_stride_bpp (hdr_bits_per_pixel h) (hdr_width h) = Some sf"
    and p: "determine_line_padding (hdr_bits_per_pixel h) (hdr_width h) = Some p"
    and usf: "unat sf = ?FS" and up: "unat p = ?FS - ?L" and usfp: "unat (sf - p) = ?L"
    using header_geometry(1)[OF v] by blast
  note geo = header_geometry(2-4)[OF v]
  have fsum: "?L + unat p = ?FS" using up geo(1) by simp
  have pfP: "pixel_format P = (if hdr_bits_per_pixel h = 8
                      then (if check_is_mono8 table then Mono8 else BGR8)
                      else if hdr_bits_per_pixel h = 24 then BGR8 else BGRA8)"
    unfolding P by (simp add: properties_of_header_def)
  then have pfv: "pixel_format P \<noteq> pixel_format_invalid" by auto
  obtain sb where sb: "determine_stride_props P = Some sb" and usb: "unat sb = buffer_stride P"
    using determine_stride_props_nat[OF pfv st] by blast
  note hf = file_height_facts[OF hm]
  note wf = file_width_facts[OF ok(1)]
  have hP: "unat (height P) = ?H" unfolding P using hf(1) by (simp add: properties_of_header_def)
  have wP: "unat (width P) = nat (sint (hdr_width h))"
    unfolding P using wf(3) by (simp add: properties_of_header_def)
  have chk: "\<not> (sb * int_to_size_t (abs_i32 (hdr_height h)) > n)"
    by (rule size_check_passes[OF usb hf(3) sz])
  have nov: "?H * unat sb < 2^64"
  proof -
    have "?H * unat sb \<le> unat n" using sz usb by simp
    moreover have "unat n < 2^64" using unsigned_less[of n] by simp
    ultimately show ?thesis by (rule le_less_trans)
  qed
  have bufl: "?H * unat sb \<le> length buf" using sz bl usb by simp
  have lb_le: "buffer_line_bytes P \<le> unat sb" unfolding usb buffer_stride_def by simp
  let ?off = "row_offset (orientation P = orientation ?P1) ?H (unat sb)"
  let ?rows = "\<lambda>i. decode_line h table (pixel_format P) (file_line h data ?p0 i)"
  have px: "load_pixels h table P (orientation ?P1) sf sb p buf (open_at data ?p0)
              = Some (ok, place_rows ?off ?rows ?H buf, open_at data (?p0 + ?H * ?FS))"
  proof (cases "hdr_bits_per_pixel h = 8")
    case False
    then have b24: "hdr_bits_per_pixel h = 24 \<or> hdr_bits_per_pixel h = 32" using ok(3) by simp
    then have gt: "hdr_bits_per_pixel h > 8" by auto
    have pf: "pixel_format P = BGR8 \<or> pixel_format P = BGRA8" using pfP False by auto
    have "buffer_line_bytes P = ?L"
      using b24 pfP wP by (auto simp: buffer_line_bytes_def file_line_bytes_def)
    then have Lsb: "?L \<le> unat sb" using lb_le by simp
    have r: "?rows = (\<lambda>i. take ?L (drop (?p0 + i * ?FS) data))"
      using gt by (simp add: decode_line_def file_line_def)
    show ?thesis unfolding r
      by (rule load_pixels_direct[OF gt pf hP usfp fsum Lsb nov bufl data])
  next
    case True
    then have ngt: "\<not> hdr_bits_per_pixel h > 8" by simp
    have LW: "?L = nat (sint (hdr_width h))" using True by (simp add: file_line_bytes_def)
    show ?thesis
    proof (cases "check_is_mono8 table")
      case mono: True
      then have pf: "pixel_format P = Mono8" using pfP True by simp
      have "buffer_line_bytes P = ?L"
        using pf wP LW by (simp add: buffer_line_bytes_def)
      then have Lsb: "?L \<le> unat sb" using lb_le by simp
      have wl: "int_loop_count (abs_i32 (hdr_width h)) = ?L" using wf(2) LW by simp
      have ix: "\<not> check_is_linear_mono8 table \<Longrightarrow>
                \<forall>i<?H. \<forall>x \<in> set (take ?L (drop (?p0 + i * ?FS) data)). unat x < length table"
        using idx[OF True] mono by (simp add: file_line_def)
      have r: "?rows = (\<lambda>i. if check_is_linear_mono8 table then take ?L (drop (?p0 + i * ?FS) data)
                      else map (\<lambda>x. b (table ! unat x)) (take ?L (drop (?p0 + i * ?FS) data)))"
        using ngt pf by (simp add: decode_line_def file_line_def)
      show ?thesis unfolding r
        by (rule load_pixels_mono8[OF ngt pf hP hf(2) wl usfp fsum Lsb nov bufl data ix])
    next
      case color: False
      then have pf: "pixel_format P = BGR8" using pfP True by simp
      have "buffer_line_bytes P = 3 * ?L"
        using pf wP LW by (simp add: buffer_line_bytes_def)
      then have Lsb: "3 * ?L \<le> unat sb" using lb_le by simp
      have wl: "int_loop_count (abs_i32 (hdr_width h)) = ?L" using wf(2) LW by simp
      have ix: "\<forall>i<?H. \<forall>x \<in> set (take ?L (drop (?p0 + i * ?FS) data)). unat x < length table"
        using idx[OF True] color by (simp add: file_line_def)
      have r: "?rows = (\<lambda>i. concat (map (\<lambda>x. [b (table ! unat x), g (table ! unat x), r (table ! unat x)])
                                (take ?L (drop (?p0 + i * ?FS) data))))"
        using ngt pf by (simp add: decode_line_def file_line_def)
      show ?thesis unfolding r
        by (rule load_pixels_indexed[OF True pf hP hf(2) wl usf geo(1) Lsb nov bufl data ix])
    qed
  qed
  show ?thesis
    unfolding load_property_success[OF nf lip] P[symmetric]
    using chk by (simp add: sf sb p istream_seekg_open_at px usb)
qed

section \<open>Pixel transfer: encoding\<close>

lemma out_open_simps [simp]:
  "out_is_open (out_open d)" "out_data (out_open d) = d" "\<not> out_failed (out_open d)"
  by (simp_all add: out_open_def)

lemma ostream_write_out_open: "ostream_write bytes (out_open d) = out_open (d @ bytes)"
  by (simp add: ostream_write_def out_open_def device_fails_def device_step_def)

lemma ofstream_open_out_open:
  "writable fs name \<Longrightarrow> io_limit fs = None \<Longrightarrow> ofstream_open fs name = out_open []"
  by (simp add: ofstream_open_def out_open_def)

lemma encode_loop:
  assumes step: "\<And>i. i < H \<Longrightarrow>
       body i (out_open (d @ concat (map rows [0..<i])))
         = Some (out_open (d @ concat (map rows [0..<i]) @ rows i), None)"
  shows "for_lines body [0..<H] res (out_open d)
           = Some (res, out_open (d @ concat (map rows [0..<H])))"
proof -
  let ?S = "\<lambda>i. out_open (d @ concat (map rows [0..<i]))"
  have "for_lines body [0..<H] res (?S 0) = Some (res, ?S H)"
  proof (rule for_lines_upt)
    fix i assume "0 \<le> i" and i: "i < H"
    show "body i (?S i) = Some (?S (Suc i), None)" using step[OF i] by simp
  qed simp
  then show ?thesis by simp
qed

lemma save_line_step:
  assumes "row_off = unat (buffer_row_offset (orientation P = oif) (height P) i sb)"
    and "unat (sb - line_padding P) = L"
    and "row_off + L \<le> length buf"
    and "unat p \<le> 3"
  shows "save_line P oif sb p buf i (out_open d) =
           Some (out_open (d @ take L (drop row_off buf) @ replicate (unat p) 0), None)"
proof -
  have fe: "buffer_fetch buf row_off L = Some (take L (drop row_off buf))"
    by (rule buffer_fetch_Some[OF assms(3)])
  have p4: "p \<le> 4" using assms(4) by (simp add: word_le_nat_alt)
  show ?thesis
  proof (cases "p = 0")
    case True
    then show ?thesis
      unfolding save_line_def
      by (simp add: Let_def assms(1)[symmetric] assms(2) fe ostream_write_out_open)
  next
    case False
    then show ?thesis
      unfolding save_line_def using p4
      by (simp add: Let_def assms(1)[symmetric] assms(2) fe ostream_write_out_open)
  qed
qed

lemma save_color_table_loop:
  "for_lines save_color_table_entry [0..<256] res (out_open d)
     = Some (res, out_open (d @ color_table_bytes identity_color_table))"
proof -
  let ?rows = "\<lambda>i. entry_bytes \<lparr>b = of_nat i, g = of_nat i, r = of_nat i, reserved = 255\<rparr>"
  have "for_lines save_color_table_entry [0..<256] res (out_open d)
           = Some (res, out_open (d @ concat (map ?rows [0..<256])))"
    by (rule encode_loop) (simp add: save_color_table_entry_def Let_def ostream_write_out_open)
  moreover have "concat (map ?rows [0..<256]) = color_table_bytes identity_color_table"
    unfolding color_table_bytes_def identity_color_table_def by (simp only: map_map comp_def)
  ultimately show ?thesis by simp
qed

lemma save_fill_header_fields:
  assumes "pixel_format P \<noteq> pixel_format_invalid"
  shows "\<exists>hdr. save_fill_header P fbu
                 = Some (hdr, if \<not> fbu \<and> orientation P = top_down then top_down else bottom_up)
     \<and> hdr_type hdr = 0x4D42 \<and> hdr_bitmap_info_header_size hdr = 40
     \<and> hdr_offset hdr = (if pixel_format P = Mono8 then 1078 else 54)
     \<and> hdr_width hdr = width P
     \<and> hdr_height hdr = (if \<not> fbu \<and> orientation P = top_down then - height P else height P)
     \<and> hdr_bits_per_pixel hdr = bits_of_format (pixel_format P)
     \<and> hdr_compression hdr = 0 \<and> hdr_image_size_bytes hdr = 0
     \<and> hdr_num_colors hdr = (if pixel_format P = Mono8 then 256 else 0)
     \<and> hdr_important_colors hdr = (if pixel_format P = Mono8 then 256 else 0)"
  using assms
  by (cases "pixel_format P")
     (simp_all add: save_fill_header_def determine_stride_bpp_def byte_per_pixel_in_file_def
        Let_def sizeof_bmp_header_def)

lemma saved_header_verdict:
  assumes "hdr_type hdr = 0x4D42" "hdr_bitmap_info_header_size hdr = 40"
    "hdr_offset hdr = (if pf = Mono8 then 1078 else 54)"
    "0 < sint (hdr_width hdr)" "hdr_height hdr \<noteq> 0"
    "hdr_bits_per_pixel hdr = bits_of_format pf" "pf \<noteq> pixel_format_invalid"
    "hdr_compression hdr = 0" "hdr_image_size_bytes hdr = 0"
    "hdr_num_colors hdr = (if pf = Mono8 then 256 else 0)"
    "hdr_important_colors hdr = (if pf = Mono8 then 256 else 0)"
  shows "header_verdict hdr = ok"
proof -
  have m: "le16 (hdr_type hdr) = [0x42, 0x4D]" using assms(1) by (simp add: magic_iff)
  have hz: "sint (hdr_height hdr) \<noteq> 0" using assms(5) by (simp add: signed_eq_0_iff)
  show ?thesis
    unfolding header_verdict_def Let_def m
    using assms(2-4,6-11) hz
    by (cases pf) simp_all
qed

lemma unat_stride_minus_padding:
  assumes "unat sb = buffer_stride P"
  shows "unat (sb - line_padding P) = buffer_line_bytes P"
proof -
  have "line_padding P \<le> sb" using assms by (simp add: word_le_nat_alt buffer_stride_def)
  from unat_sub[OF this] show ?thesis using assms by (simp add: buffer_stride_def)
qed

lemma save_stream_ok:
  assumes pf: "pixel_format P \<noteq> pixel_format_invalid"
    and st: "buffer_stride P < 2^64"
    and nov: "unat (height P) * buffer_stride P < 2^64"
    and buf: "unat (height P) * buffer_stride P \<le> length buf"
    and fh: "save_fill_header P fbu = Some (hdr, oif)"
    and v: "header_verdict hdr = ok"
  shows "save_stream buf P fbu (out_open []) = Some (ok, out_open (encoded_file hdr P oif buf))"
proof -
  let ?H = "unat (height P)"
  obtain sb where sb: "determine_stride_props P = Some sb" and usb: "unat sb = buffer_stride P"
    using determine_stride_props_nat[OF pf st] by blast
  obtain sf p where p: "determine_line_padding (hdr_bits_per_pixel hdr) (hdr_width hdr) = Some p"
    and up: "unat p = file_stride hdr - file_line_bytes hdr"
    using header_geometry(1)[OF v] by blast
  have p3: "unat p \<le> 3" unfolding up file_stride_def by (rule round_up4_diff(1))
  have L: "unat (sb - line_padding P) = buffer_line_bytes P"
    by (rule unat_stride_minus_padding[OF usb])
  have Lsb: "buffer_line_bytes P \<le> unat sb" unfolding usb buffer_stride_def by simp
  have nov': "?H * unat sb < 2^64" using nov usb by simp
  have lines: "\<And>d. for_lines (save_line P oif sb p buf) [0..<?H] ok (out_open d)
     = Some (ok, out_open (d @ concat (map (encoded_line hdr P oif buf) [0..<?H])))"
  proof (rule encode_loop)
    fix d i assume i: "i < ?H"
    have ro: "row_offset (orientation P = oif) ?H (unat sb) i
                = unat (buffer_row_offset (orientation P = oif) (height P) i sb)"
      using unat_buffer_row_offset[OF i nov', of "orientation P = oif"] by simp
    have b: "row_offset (orientation P = oif) ?H (unat sb) i + buffer_line_bytes P \<le> length buf"
      using row_offset_bound[OF i Lsb, of "orientation P = oif"] buf usb by simp
    show "save_line P oif sb p buf i
            (out_open (d @ concat (map (encoded_line hdr P oif buf) [0..<i])))
          = Some (out_open (d @ concat (map (encoded_line hdr P oif buf) [0..<i])
                   @ encoded_line hdr P oif buf i), None)"
      using save_line_step[OF ro L b p3] by (simp add: encoded_line_def usb up)
  qed
  show ?thesis
    unfolding save_stream_def
    by (simp add: sb fh ostream_write_out_open is_ok_def save_color_table_loop p lines
        encoded_file_def Let_def)
qed

lemma buffer_stride_pos:
  assumes "width P \<noteq> 0" "pixel_format P \<noteq> pixel_format_invalid"
  shows "0 < buffer_stride P"
proof -
  have "0 < unat (width P)" using assms(1) by (simp add: unat_gt_0)
  moreover have "0 < bytes_per_pixel (pixel_format P)" using assms(2) by (cases "pixel_format P") auto
  ultimately show ?thesis by (simp add: buffer_stride_def buffer_line_bytes_def)
qed

lemma save_ok:
  assumes fsys: "writable fs name" "io_limit fs = None"
    and pf: "pixel_format P \<noteq> pixel_format_invalid"
    and w: "0 < sint (width P)" and h0: "height P \<noteq> 0"
    and ori: "orientation P \<noteq> orientation_invalid"
    and st: "buffer_stride P < 2^64"
    and sz: "unat (height P) * buffer_stride P \<le> unat n"
    and bl: "unat n \<le> length buf"
  shows "\<exists>hdr oif. save_fill_header P fbu = Some (hdr, oif) \<and> header_verdict hdr = ok
           \<and> save fs (Some name) (Some buf) n P fbu
               = Some (ok, fs\<lparr>files := (files fs)(name \<mapsto> encoded_file hdr P oif buf)\<rparr>)"
proof -
  let ?H = "unat (height P)"
  let ?oif = "if \<not> fbu \<and> orientation P = top_down then top_down else bottom_up"
  obtain hdr where fh: "save_fill_header P fbu = Some (hdr, ?oif)"
    and f: "hdr_type hdr = 0x4D42" "hdr_bitmap_info_header_size hdr = 40"
     "hdr_offset hdr = (if pixel_format P = Mono8 then 1078 else 54)"
     "hdr_width hdr = width P"
     "hdr_height hdr = (if \<not> fbu \<and> orientation P = top_down then - height P else height P)"
     "hdr_bits_per_pixel hdr = bits_of_format (pixel_format P)"
     "hdr_compression hdr = 0" "hdr_image_size_bytes hdr = 0"
     "hdr_num_colors hdr = (if pixel_format P = Mono8 then 256 else 0)"
     "hdr_important_colors hdr = (if pixel_format P = Mono8 then 256 else 0)"
    using save_fill_header_fields[OF pf, of fbu] by blast
  have hz: "hdr_height hdr \<noteq> 0" using f(5) h0 by simp
  have ws: "0 < sint (hdr_width hdr)" using f(4) w by simp
  have v: "header_verdict hdr = ok"
    by (rule saved_header_verdict[OF f(1-3) ws hz f(6) pf f(7-10)])
  have w0: "width P \<noteq> 0" using w by auto
  obtain sb where sb: "determine_stride_props P = Some sb" and usb: "unat sb = buffer_stride P"
    using determine_stride_props_nat[OF pf st] by blast
  have spos: "0 < buffer_stride P" by (rule buffer_stride_pos[OF w0 pf])
  have sb0: "sb \<noteq> 0" using usb spos by (simp add: unat_gt_0[symmetric])
  have hpos: "0 < ?H" using h0 by (simp add: unat_gt_0)
  have "0 < ?H * buffer_stride P" using hpos spos by simp
  then have "0 < unat n" using sz by (rule less_le_trans)
  then have n0: "n \<noteq> 0" by (simp add: unat_gt_0)
  have uh: "unat (ucast (height P) :: size_t) = ?H" by (rule unat_ucast_32_64)
  have chk: "\<not> (sb * ucast (height P) > n)"
    by (rule size_check_passes[OF usb uh sz])
  have nov: "?H * buffer_stride P < 2^64"
  proof -
    have "unat n < 2^64" using unsigned_less[of n] by simp
    with sz show ?thesis by (rule le_less_trans)
  qed
  have bufl: "?H * buffer_stride P \<le> length buf" using sz bl by simp
  note ss = save_stream_ok[OF pf st nov bufl fh v]
  have "save fs (Some name) (Some buf) n P fbu
        = Some (ok, fs\<lparr>files := (files fs)(name \<mapsto> encoded_file hdr P ?oif buf)\<rparr>)"
    unfolding save_def
    using h0 w0 pf ori n0 sb0 chk
    by (simp add: sb ofstream_open_out_open[OF fsys] ss ofstream_close_def)
  then show ?thesis using fh v by blast
qed

lemma length_concat_rows:
  assumes "\<And>j. j < H \<Longrightarrow> length (rows j) = FS"
  shows "length (concat (map rows [0..<H])) = H * FS"
  using assms by (induction H) simp_all

lemma take_drop_concat_rows:
  assumes "\<And>j. j < H \<Longrightarrow> length (rows j) = FS" and "i < H"
  shows "take FS (drop (i * FS) (concat (map rows [0..<H]))) = rows i"
  using assms
proof (induction H)
  case 0
  then show ?case by simp
next
  case (Suc H)
  let ?A = "concat (map rows [0..<H])"
  have lA: "length ?A = H * FS" by (rule length_concat_rows) (use Suc.prems(1) in simp)
  have lH: "length (rows H) = FS" using Suc.prems(1)[of H] by simp
  show ?case
  proof (cases "i = H")
    case True
    then show ?thesis using lA lH by simp
  next
    case False
    then have i: "i < H" using Suc.prems(2) by simp
    have ih: "take FS (drop (i * FS) ?A) = rows i"
      using Suc.IH[OF _ i] Suc.prems(1) by simp
    have "Suc i * FS \<le> H * FS" using i by (intro mult_le_mono1) simp
    then have le: "i * FS + FS \<le> length ?A" using lA by simp
    then have "FS \<le> length (drop (i * FS) ?A)" by simp
    then have "take FS (drop (i * FS) ?A @ rows H) = take FS (drop (i * FS) ?A)" by simp
    moreover have "drop (i * FS) (?A @ rows H) = drop (i * FS) ?A @ rows H" using le by simp
    ultimately show ?thesis using ih by simp
  qed
qed

lemma length_decode_line:
  assumes "hdr_bits_per_pixel hdr = bits_of_format f \<or> (hdr_bits_per_pixel hdr = 8 \<and> f = BGR8)"
    and "f \<noteq> pixel_format_invalid"
    and "length bytes = unat (hdr_bits_per_pixel hdr) div 8 * W"
  shows "length (decode_line hdr table f bytes) = W * bytes_per_pixel f"
  using assms
  by (cases f) (auto simp: decode_line_def length_concat_triples)

lemma length_color_table_bytes_identity:
  "length (color_table_bytes identity_color_table) = 1024"
  by (simp add: length_color_table_bytes identity_color_table_def)

lemma load_places_lines:
  assumes fsys: "files fs name = Some data" "io_limit fs = None"
    and len: "54 \<le> length data"
    and h: "h = parse_bmp_header (take 54 data)"
    and v: "header_verdict h = ok"
    and hm: "sint (hdr_height h) \<noteq> - (2^31)"
    and ct: "hdr_bits_per_pixel h = 8 \<Longrightarrow>
               unat (hdr_bitmap_info_header_size h + 14)
                 + (if hdr_num_colors h = 0 then 256 else unat (hdr_num_colors h)) * 4
               \<le> length data"
    and tb: "table = (if hdr_bits_per_pixel h = 8 then file_color_table data else [])"
    and nf: "\<not> (fo \<and> orientation Q = orientation_invalid)"
    and P: "P = requested_layout (properties_of_header h table) Q flp fo"
    and st: "buffer_stride P < 2^64"
    and sz: "file_height h * buffer_stride P \<le> unat n"
    and bl: "unat n \<le> length buf"
    and data: "unat (hdr_offset h) + file_height h * file_stride h \<le> length data"
    and idx: "hdr_bits_per_pixel h = 8 \<Longrightarrow>
                \<not> (check_is_mono8 table \<and> check_is_linear_mono8 table) \<Longrightarrow>
                \<forall>i<file_height h. \<forall>x \<in> set (file_line h data (unat (hdr_offset h)) i).
                   unat x < length table"
    and off: "off = row_offset (orientation P = orientation (properties_of_header h table))
                      (file_height h) (buffer_stride P)"
  shows "\<exists>buf'. load fs (Some name) (Some buf) n Q flp fo = Some (ok, Some buf', P)
           \<and> length buf' = length buf
           \<and> (\<forall>i<file_height h.
                 take (buffer_line_bytes P) (drop (off i) buf')
                   = decode_line h table (pixel_format P)
                       (file_line h data (unat (hdr_offset h)) i))
           \<and> (\<forall>j<length buf.
                 (\<forall>i<file_height h. j < off i \<or> off i + buffer_line_bytes P \<le> j)
                 \<longrightarrow> buf' ! j = buf ! j)"
proof -
  let ?H = "file_height h" and ?L = "buffer_line_bytes P" and ?SB = "buffer_stride P"
  let ?rows = "\<lambda>i. decode_line h table (pixel_format P) (file_line h data (unat (hdr_offset h)) i)"
  let ?buf' = "place_rows off ?rows ?H buf"
  let ?same = "orientation P = orientation (properties_of_header h table)"
  note ok = header_verdict_ok[OF v]
  note geo = header_geometry(2-4)[OF v]
  note wf = file_width_facts[OF ok(1)]
  have ld: "load fs (Some name) (Some buf) n Q flp fo = Some (ok, Some ?buf', P)"
    unfolding off by (rule load_decodes[OF fsys len h v hm ct tb nf P st sz bl data idx])
  have pfP: "pixel_format P = (if hdr_bits_per_pixel h = 8
                      then (if check_is_mono8 table then Mono8 else BGR8)
                      else if hdr_bits_per_pixel h = 24 then BGR8 else BGRA8)"
    unfolding P by (simp add: properties_of_header_def)
  have wP: "unat (width P) = nat (sint (hdr_width h))"
    unfolding P using wf(3) by (simp add: properties_of_header_def)
  have fmt: "hdr_bits_per_pixel h = bits_of_format (pixel_format P)
               \<or> (hdr_bits_per_pixel h = 8 \<and> pixel_format P = BGR8)"
    using pfP ok(3) by auto
  have pfv: "pixel_format P \<noteq> pixel_format_invalid" using pfP by auto
  have lr: "\<And>i. i < ?H \<Longrightarrow> length (?rows i) = ?L"
  proof -
    fix i assume i: "i < ?H"
    have "unat (hdr_offset h) + i * file_stride h + file_line_bytes h \<le> length data"
      by (rule line_in_data[OF data i geo(1)])
    then have "length (file_line h data (unat (hdr_offset h)) i) = file_line_bytes h"
      by (simp add: file_line_def)
    then have "length (file_line h data (unat (hdr_offset h)) i)
                 = unat (hdr_bits_per_pixel h) div 8 * nat (sint (hdr_width h))"
      by (simp add: file_line_bytes_def)
    from length_decode_line[OF fmt pfv this, of table]
    show "length (?rows i) = ?L" by (simp add: buffer_line_bytes_def wP)
  qed
  have LS: "?L \<le> ?SB" by (simp add: buffer_stride_def)
  have bufl: "?H * ?SB \<le> length buf" using sz bl by simp
  have inb: "\<And>i. i < ?H \<Longrightarrow> off i + length (?rows i) \<le> length buf"
  proof -
    fix i assume i: "i < ?H"
    from row_offset_bound[OF i LS, of ?same] bufl lr[OF i]
    show "off i + length (?rows i) \<le> length buf" unfolding off by simp
  qed
  have dis: "\<And>i k. i < ?H \<Longrightarrow> k < ?H \<Longrightarrow> i \<noteq> k \<Longrightarrow>
           off i + length (?rows i) \<le> off k \<or> off k + length (?rows k) \<le> off i"
  proof -
    fix i k assume a: "i < ?H" "k < ?H" "i \<noteq> k"
    from row_offset_disjoint[OF a LS, of ?same] lr[OF a(1)] lr[OF a(2)]
    show "off i + length (?rows i) \<le> off k \<or> off k + length (?rows k) \<le> off i"
      unfolding off by simp
  qed
  have l: "length ?buf' = length buf" by (rule length_place_rows[OF inb])
  have rowsok: "\<forall>i<?H. take ?L (drop (off i) ?buf') = ?rows i"
  proof (intro allI impI)
    fix i assume i: "i < ?H"
    from take_drop_place_rows[of ?H off ?rows buf i] inb dis i
    have "take (length (?rows i)) (drop (off i) ?buf') = ?rows i" by blast
    then show "take ?L (drop (off i) ?buf') = ?rows i" using lr[OF i] by simp
  qed
  have outside: "\<forall>j<length buf. (\<forall>i<?H. j < off i \<or> off i + ?L \<le> j) \<longrightarrow> ?buf' ! j = buf ! j"
  proof (intro allI impI)
    fix j assume j: "j < length buf" and o: "\<forall>i<?H. j < off i \<or> off i + ?L \<le> j"
    show "?buf' ! j = buf ! j"
    proof (rule nth_place_rows_outside[OF inb j])
      fix i assume i: "i < ?H"
      then show "j < off i \<or> off i + length (?rows i) \<le> j" using o lr[OF i] by simp
    qed
  qed
  show ?thesis using ld l rowsok outside by blast
qed

lemma saved_header_facts:
  assumes fh: "save_fill_header P fbu = Some (hdr, oif)"
    and pf: "pixel_format P \<noteq> pixel_format_invalid"
    and w: "0 < sint (width P)" and h0: "height P \<noteq> 0"
  shows "header_verdict hdr = ok"
    "oif = (if \<not> fbu \<and> orientation P = top_down then top_down else bottom_up)"
    "hdr_width hdr = width P"
    "hdr_height hdr = (if \<not> fbu \<and> orientation P = top_down then - height P else height P)"
    "hdr_bits_per_pixel hdr = bits_of_format (pixel_format P)"
    "unat (hdr_offset hdr) = (if pixel_format P = Mono8 then 1078 else 54)"
    "hdr_bitmap_info_header_size hdr = 40"
    "hdr_num_colors hdr = (if pixel_format P = Mono8 then 256 else 0)"
    "file_line_bytes hdr = buffer_line_bytes P"
proof -
  obtain hdr' where fh': "save_fill_header P fbu
          = Some (hdr', if \<not> fbu \<and> orientation P = top_down then top_down else bottom_up)"
    and f: "hdr_type hdr' = 0x4D42" "hdr_bitmap_info_header_size hdr' = 40"
     "hdr_offset hdr' = (if pixel_format P = Mono8 then 1078 else 54)"
     "hdr_width hdr' = width P"
     "hdr_height hdr' = (if \<not> fbu \<and> orientation P = top_down then - height P else height P)"
     "hdr_bits_per_pixel hdr' = bits_of_format (pixel_format P)"
     "hdr_compression hdr' = 0" "hdr_image_size_bytes hdr' = 0"
     "hdr_num_colors hdr' = (if pixel_format P = Mono8 then 256 else 0)"
     "hdr_important_colors hdr' = (if pixel_format P = Mono8 then 256 else 0)"
    using save_fill_header_fields[OF pf, of fbu] by blast
  have e: "hdr' = hdr" and o: "oif = (if \<not> fbu \<and> orientation P = top_down then top_down else bottom_up)"
    using fh fh' by simp_all
  note f' = f[unfolded e]
  have hz: "hdr_height hdr \<noteq> 0" using f'(5) h0 by simp
  have ws: "0 < sint (hdr_width hdr)" using f'(4) w by simp
  show "header_verdict hdr = ok"
    by (rule saved_header_verdict[OF f'(1-3) ws hz f'(6) pf f'(7-10)])
  show "oif = (if \<not> fbu \<and> orientation P = top_down then top_down else bottom_up)" by (rule o)
  show "hdr_width hdr = width P" by (rule f'(4))
  show "hdr_height hdr = (if \<not> fbu \<and> orientation P = top_down then - height P else height P)"
    by (rule f'(5))
  show "hdr_bits_per_pixel hdr = bits_of_format (pixel_format P)" by (rule f'(6))
  show "unat (hdr_offset hdr) = (if pixel_format P = Mono8 then 1078 else 54)"
    using f'(3) by simp
  show "hdr_bitmap_info_header_size hdr = 40" by (rule f'(2))
  show "hdr_num_colors hdr = (if pixel_format P = Mono8 then 256 else 0)" by (rule f'(9))
  have uw: "unat (width P) = nat (sint (width P))"
    by (rule unat_eq_nat_sint) (use w in simp)
  show "file_line_bytes hdr = buffer_line_bytes P"
    using pf by (cases "pixel_format P")
      (simp_all add: file_line_bytes_def buffer_line_bytes_def f'(4) f'(6) uw)
qed

lemma encoded_file_parts:
  assumes off: "unat (hdr_offset hdr) = (if pixel_format P = Mono8 then 1078 else 54)"
  shows "take 54 (encoded_file hdr P oif buf) = bmp_header_bytes hdr"
    "drop (unat (hdr_offset hdr)) (encoded_file hdr P oif buf)
       = concat (map (encoded_line hdr P oif buf) [0..<unat (height P)])"
    "pixel_format P = Mono8 \<Longrightarrow>
       take 1024 (drop 54 (encoded_file hdr P oif buf)) = color_table_bytes identity_color_table"
  using off
  by (simp_all add: encoded_file_def length_bmp_header_bytes length_color_table_bytes_identity)

lemma length_encoded_line:
  assumes "row_offset (orientation P = oif) (unat (height P)) (buffer_stride P) i
             + buffer_line_bytes P \<le> length buf"
    and "file_line_bytes hdr = buffer_line_bytes P"
  shows "length (encoded_line hdr P oif buf i) = file_stride hdr"
proof -
  have "file_line_bytes hdr \<le> file_stride hdr" unfolding file_stride_def by (rule round_up4_diff(2))
  then show ?thesis using assms by (simp add: encoded_line_def)
qed

lemma encoded_file_line:
  assumes off: "unat (hdr_offset hdr) = (if pixel_format P = Mono8 then 1078 else 54)"
    and flb: "file_line_bytes hdr = buffer_line_bytes P"
    and buf: "unat (height P) * buffer_stride P \<le> length buf"
    and i: "i < unat (height P)"
  shows "file_line hdr (encoded_file hdr P oif buf) (unat (hdr_offset hdr)) i
           = take (buffer_line_bytes P)
               (drop (row_offset (orientation P = oif) (unat (height P)) (buffer_stride P) i) buf)"
proof -
  let ?H = "unat (height P)" and ?L = "buffer_line_bytes P" and ?FS = "file_stride hdr"
  let ?rows = "encoded_line hdr P oif buf"
  let ?ro = "row_offset (orientation P = oif) ?H (buffer_stride P)"
  have LS: "?L \<le> buffer_stride P" by (simp add: buffer_stride_def)
  have inb: "\<And>j. j < ?H \<Longrightarrow> ?ro j + ?L \<le> length buf"
  proof -
    fix j assume j: "j < ?H"
    from row_offset_bound[OF j LS, of "orientation P = oif"] buf
    show "?ro j + ?L \<le> length buf" by simp
  qed
  have lr: "\<And>j. j < ?H \<Longrightarrow> length (?rows j) = ?FS"
    using length_encoded_line[OF inb flb] by simp
  have LF: "?L \<le> ?FS" using flb round_up4_diff(2)[of "file_line_bytes hdr"]
    by (simp add: file_stride_def)
  have d: "drop (unat (hdr_offset hdr) + i * ?FS) (encoded_file hdr P oif buf)
             = drop (i * ?FS) (concat (map ?rows [0..<?H]))"
  proof -
    have "drop (unat (hdr_offset hdr) + i * ?FS) (encoded_file hdr P oif buf)
            = drop (i * ?FS) (drop (unat (hdr_offset hdr)) (encoded_file hdr P oif buf))"
      by (simp add: add.commute)
    then show ?thesis unfolding encoded_file_parts(2)[OF off, of oif buf] .
  qed
  have "take ?L (drop (i * ?FS) (concat (map ?rows [0..<?H])))
          = take ?L (take ?FS (drop (i * ?FS) (concat (map ?rows [0..<?H]))))"
    using LF by (simp add: min_def)
  also have "\<dots> = take ?L (?rows i)"
    using take_drop_concat_rows[of ?H ?rows ?FS i] lr i by simp
  also have "\<dots> = take ?L (drop (?ro i) buf)"
    using inb[OF i] by (simp add: encoded_line_def)
  finally show ?thesis unfolding file_line_def flb d .
qed

section \<open>Saving and loading again\<close>

lemma rd16_append: "rd16 (xs @ ys) (length xs + k) = rd16 ys k"
  by (simp add: rd16_def nth_append)

lemma rd32_append: "rd32 (xs @ ys) (length xs + k) = rd32 ys k"
  by (simp add: rd32_def nth_append)

lemma rd16_le16_append: "rd16 (le16 w @ ys) 0 = w"
  using le16_rd16[of w] by (simp add: rd16_def le16_def)

lemma rd32_le32_append: "rd32 (le32 w @ ys) 0 = w"
  using rd32_le32[of w] by (simp add: rd32_def le32_def)

lemma length_le [simp]: "length (le16 w) = 2" "length (le32 v) = 4"
  by (simp_all add: le16_def le32_def)

lemma rd16_at:
  "length xs = k \<Longrightarrow> rd16 (xs @ le16 w @ ys) k = w"
  using rd16_append[of xs "le16 w @ ys" 0] rd16_le16_append[of w ys] by simp

lemma rd32_at:
  "length xs = k \<Longrightarrow> rd32 (xs @ le32 w @ ys) k = w"
  using rd32_append[of xs "le32 w @ ys" 0] rd32_le32_append[of w ys] by simp

lemma parse_bmp_header_bytes: "parse_bmp_header (bmp_header_bytes h) = h"
proof -
  let ?f1 = "le16 (hdr_type h)" and ?f2 = "le32 (hdr_size h)"
  let ?f3 = "le16 (hdr_reserved1 h)" and ?f4 = "le16 (hdr_reserved2 h)"
  let ?f5 = "le32 (hdr_offset h)" and ?f6 = "le32 (hdr_bitmap_info_header_size h)"
  let ?f7 = "le32 (hdr_width h)" and ?f8 = "le32 (hdr_height h)"
  let ?f9 = "le16 (hdr_num_planes h)" and ?f10 = "le16 (hdr_bits_per_pixel h)"
  let ?f11 = "le32 (hdr_compression h)" and ?f12 = "le32 (hdr_image_size_bytes h)"
  let ?f13 = "le32 (hdr_x_resolution h)" and ?f14 = "le32 (hdr_y_resolution h)"
  let ?f15 = "le32 (hdr_num_colors h)" and ?f16 = "le32 (hdr_important_colors h)"
  let ?bs = "bmp_header_bytes h"
  have b: "?bs = ?f1 @ ?f2 @ ?f3 @ ?f4 @ ?f5 @ ?f6 @ ?f7 @ ?f8 @ ?f9 @ ?f10 @ ?f11 @ ?f12
                 @ ?f13 @ ?f14 @ ?f15 @ ?f16 @ []"
    by (simp add: bmp_header_bytes_def)
  have "rd16 ?bs 0 = hdr_type h" unfolding b by (rule rd16_le16_append)
  moreover have "rd32 ?bs 2 = hdr_size h"
    using rd32_at[of ?f1 2 "hdr_size h"] unfolding b by simp
  moreover have "rd16 ?bs 6 = hdr_reserved1 h"
    using rd16_at[of "?f1 @ ?f2" 6 "hdr_reserved1 h"] unfolding b by simp
  moreover have "rd16 ?bs 8 = hdr_reserved2 h"
    using rd16_at[of "?f1 @ ?f2 @ ?f3" 8 "hdr_reserved2 h"] unfolding b by simp
  moreover have "rd32 ?bs 10 = hdr_offset h"
    using rd32_at[of "?f1 @ ?f2 @ ?f3 @ ?f4" 10 "hdr_offset h"] unfolding b by simp
  moreover have "rd32 ?bs 14 = hdr_bitmap_info_header_size h"
    using rd32_at[of "?f1 @ ?f2 @ ?f3 @ ?f4 @ ?f5" 14 "hdr_bitmap_info_header_size h"]
    unfolding b by simp
  moreover have "rd32 ?bs 18 = hdr_width h"
    using rd32_at[of "?f1 @ ?f2 @ ?f3 @ ?f4 @ ?f5 @ ?f6" 18 "hdr_width h"] unfolding b by simp
  moreover have "rd32 ?bs 22 = hdr_height h"
    using rd32_at[of "?f1 @ ?f2 @ ?f3 @ ?f4 @ ?f5 @ ?f6 @ ?f7" 22 "hdr_height h"]
    unfolding b by simp
  moreover have "rd16 ?bs 26 = hdr_num_planes h"
    using rd16_at[of "?f1 @ ?f2 @ ?f3 @ ?f4 @ ?f5 @ ?f6 @ ?f7 @ ?f8" 26 "hdr_num_planes h"]
    unfolding b by simp
  moreover have "rd16 ?bs 28 = hdr_bits_per_pixel h"
    using rd16_at[of "?f1 @ ?f2 @ ?f3 @ ?f4 @ ?f5 @ ?f6 @ ?f7 @ ?f8 @ ?f9" 28
        "hdr_bits_per_pixel h"]
    unfolding b by simp
  moreover have "rd32 ?bs 30 = hdr_compression h"
    using rd32_at[of "?f1 @ ?f2 @ ?f3 @ ?f4 @ ?f5 @ ?f6 @ ?f7 @ ?f8 @ ?f9 @ ?f10" 30
        "hdr_compression h"]
    unfolding b by simp
  moreover have "rd32 ?bs 34 = hdr_image_size_bytes h"
    using rd32_at[of "?f1 @ ?f2 @ ?f3 @ ?f4 @ ?f5 @ ?f6 @ ?f7 @ ?f8 @ ?f9 @ ?f10 @ ?f11" 34
        "hdr_image_size_bytes h"]
    unfolding b by simp
  moreover have "rd32 ?bs 38 = hdr_x_resolution h"
    using rd32_at[of "?f1 @ ?f2 @ ?f3 @ ?f4 @ ?f5 @ ?f6 @ ?f7 @ ?f8 @ ?f9 @ ?f10 @ ?f11 @ ?f12"
        38 "hdr_x_resolution h"]
    unfolding b by simp
  moreover have "rd32 ?bs 42 = hdr_y_resolution h"
    using rd32_at[of "?f1 @ ?f2 @ ?f3 @ ?f4 @ ?f5 @ ?f6 @ ?f7 @ ?f8 @ ?f9 @ ?f10 @ ?f11 @ ?f12
        @ ?f13" 42 "hdr_y_resolution h"]
    unfolding b by simp
  moreover have "rd32 ?bs 46 = hdr_num_colors h"
    using rd32_at[of "?f1 @ ?f2 @ ?f3 @ ?f4 @ ?f5 @ ?f6 @ ?f7 @ ?f8 @ ?f9 @ ?f10 @ ?f11 @ ?f12
        @ ?f13 @ ?f14" 46 "hdr_num_colors h"]
    unfolding b by simp
  moreover have "rd32 ?bs 50 = hdr_important_colors h"
    using rd32_at[of "?f1 @ ?f2 @ ?f3 @ ?f4 @ ?f5 @ ?f6 @ ?f7 @ ?f8 @ ?f9 @ ?f10 @ ?f11 @ ?f12
        @ ?f13 @ ?f14 @ ?f15" 50 "hdr_important_colors h" "[]"]
    unfolding b by simp
  ultimately show ?thesis unfolding parse_bmp_header_def by simp
qed

lemma entries_of_color_table_bytes: "entries_of_bytes (color_table_bytes table) = table"
  unfolding color_table_bytes_def
  by (induction table) (simp_all add: entry_bytes_def)

lemma check_is_mono8_identity: "check_is_mono8 identity_color_table"
  by (simp add: check_is_mono8_iff identity_color_table_def)

lemma check_is_linear_mono8_from_upt:
  "check_is_linear_mono8_from (of_nat a)
     (map (\<lambda>i. \<lparr>b = of_nat i, g = of_nat i, r = of_nat i, reserved = x\<rparr>) [a..<n])"
proof (induction "n - a" arbitrary: a)
  case 0
  then show ?case by simp
next
  case (Suc d)
  then have lt: "a < n" by simp
  have "check_is_linear_mono8_from (of_nat (Suc a))
     (map (\<lambda>i. \<lparr>b = of_nat i, g = of_nat i, r = of_nat i, reserved = x\<rparr>) [Suc a..<n])"
    using Suc.hyps(1)[of "Suc a"] Suc.hyps(2) by simp
  then show ?case using lt by (simp add: upt_conv_Cons add.commute)
qed

lemma check_is_linear_mono8_identity: "check_is_linear_mono8 identity_color_table"
  unfolding check_is_linear_mono8_def identity_color_table_def
  using check_is_linear_mono8_from_upt[of 0 255 256] by simp

lemma row_offset_mirror:
  assumes "i < H"
  shows "\<exists>k<H. row_offset same H SB k = i * SB \<and> row_offset same H SB i = k * SB"
proof (cases same)
  case True
  then show ?thesis using assms by (auto simp: row_offset_def)
next
  case False
  have "H - 1 - i < H" using assms by simp
  moreover have "H - 1 - (H - 1 - i) = i" using assms by simp
  ultimately show ?thesis using False by (auto simp: row_offset_def intro!: exI[of _ "H - 1 - i"])
qed

lemma saved_file_table:
  assumes off: "unat (hdr_offset hdr) = (if pixel_format P = Mono8 then 1078 else 54)"
    and hd: "parse_bmp_header (take 54 (encoded_file hdr P oif buf)) = hdr"
    and bits: "hdr_bits_per_pixel hdr = 8" and pf: "pixel_format P = Mono8"
    and info: "hdr_bitmap_info_header_size hdr = 40"
    and nc: "hdr_num_colors hdr = 256"
  shows "file_color_table (encoded_file hdr P oif buf) = identity_color_table"
  unfolding file_color_table_def hd Let_def
  using encoded_file_parts(3)[OF off pf, of oif buf]
  by (simp add: info nc entries_of_color_table_bytes)

lemma length_encoded_file:
  assumes off: "unat (hdr_offset hdr) = (if pixel_format P = Mono8 then 1078 else 54)"
    and flb: "file_line_bytes hdr = buffer_line_bytes P"
    and buf: "unat (height P) * buffer_stride P \<le> length buf"
  shows "length (encoded_file hdr P oif buf)
           = unat (hdr_offset hdr) + unat (height P) * file_stride hdr"
proof -
  let ?H = "unat (height P)" and ?L = "buffer_line_bytes P"
  have LS: "?L \<le> buffer_stride P" by (simp add: buffer_stride_def)
  have lr: "\<And>j. j < ?H \<Longrightarrow> length (encoded_line hdr P oif buf j) = file_stride hdr"
  proof -
    fix j assume j: "j < ?H"
    from row_offset_bound[OF j LS, of "orientation P = oif"] buf
    have "row_offset (orientation P = oif) ?H (buffer_stride P) j + ?L \<le> length buf" by simp
    from length_encoded_line[OF this flb] show "length (encoded_line hdr P oif buf j) = file_stride hdr" .
  qed
  have "length (concat (map (encoded_line hdr P oif buf) [0..<?H])) = ?H * file_stride hdr"
    by (rule length_concat_rows[OF lr])
  then show ?thesis using off
    by (simp add: encoded_file_def length_bmp_header_bytes length_color_table_bytes_identity)
qed

lemma bits_of_format_cases:
  "f \<noteq> pixel_format_invalid \<Longrightarrow>
     (bits_of_format f = 8) = (f = Mono8) \<and> (bits_of_format f = 24) = (f = BGR8)
     \<and> (bits_of_format f = 32) = (f = BGRA8)"
  by (cases f) simp_all

lemma round_trip:
  assumes fsys: "writable fs name" "io_limit fs = None"
    and pf: "pixel_format P \<noteq> pixel_format_invalid"
    and ori: "orientation P \<noteq> orientation_invalid"
    and w: "0 < sint (width P)" and hs: "0 < sint (height P)"
    and st: "buffer_stride P < 2^64"
    and sz: "unat (height P) * buffer_stride P \<le> unat n"
    and bl: "unat n \<le> length B" and bl0: "unat n \<le> length B0"
    and q: "line_padding Q = line_padding P" "orientation Q = orientation P"
  shows "\<exists>fs' B2. save fs (Some name) (Some B) n P fbu = Some (ok, fs')
          \<and> load fs' (Some name) (Some B0) n Q True True = Some (ok, Some B2, P)
          \<and> length B2 = length B0
          \<and> (\<forall>i<unat (height P).
                take (buffer_line_bytes P) (drop (i * buffer_stride P) B2)
                  = take (buffer_line_bytes P) (drop (i * buffer_stride P) B))
          \<and> (\<forall>j<length B0.
                (\<forall>i<unat (height P).
                   j < i * buffer_stride P \<or> i * buffer_stride P + buffer_line_bytes P \<le> j)
                \<longrightarrow> B2 ! j = B0 ! j)"
proof -
  let ?H = "unat (height P)" and ?L = "buffer_line_bytes P" and ?SB = "buffer_stride P"
  have h0: "height P \<noteq> 0" using hs by auto
  obtain hdr oif where fh: "save_fill_header P fbu = Some (hdr, oif)"
    and sv: "save fs (Some name) (Some B) n P fbu
               = Some (ok, fs\<lparr>files := (files fs)(name \<mapsto> encoded_file hdr P oif B)\<rparr>)"
    using save_ok[OF fsys pf w h0 ori st sz bl, of fbu] by blast
  note sh = saved_header_facts[OF fh pf w h0]
  let ?data = "encoded_file hdr P oif B"
  let ?fs' = "fs\<lparr>files := (files fs)(name \<mapsto> ?data)\<rparr>"
  let ?table = "if hdr_bits_per_pixel hdr = 8 then file_color_table ?data else []"
  let ?same = "orientation P = oif"
  let ?off = "row_offset ?same ?H ?SB"
  have bufl: "?H * ?SB \<le> length B" using sz bl by simp
  have f1: "files ?fs' name = Some ?data" by simp
  have f2: "io_limit ?fs' = None" using fsys(2) by simp
  have ldat: "length ?data = unat (hdr_offset hdr) + ?H * file_stride hdr"
    by (rule length_encoded_file[OF sh(6) sh(9) bufl])
  have len: "54 \<le> length ?data" using ldat sh(6) by (simp split: if_splits)
  have hp: "hdr = parse_bmp_header (take 54 ?data)"
    using encoded_file_parts(1)[OF sh(6), of oif B] parse_bmp_header_bytes[of hdr] by simp
  have uh: "unat (height P) = nat (sint (height P))"
    by (rule unat_eq_nat_sint) (use hs in simp)
  have sh_neg: "sint (- height P) = - sint (height P)"
  proof -
    have "signed_take_bit 31 (- sint (height P)) = - sint (height P)"
      using hs sint32_bounds(1)[of "height P"]
      by (intro signed_take_bit_int_eq_self) auto
    then show ?thesis by (simp add: sint_word_minus)
  qed
  have hm: "sint (hdr_height hdr) \<noteq> - (2^31)"
    using sh(4) hs sh_neg sint32_bounds(1)[of "height P"] by (auto split: if_splits)
  have fhgt: "file_height hdr = ?H"
    using sh(4) sh_neg hs uh by (auto simp: file_height_def split: if_splits)
  have absh: "abs_i32 (hdr_height hdr) = height P"
    using sh(4) sh_neg hs by (auto simp: abs_i32_def word_sless_alt split: if_splits)
  have neg: "(hdr_height hdr <s 0) = (\<not> fbu \<and> orientation P = top_down)"
    using sh(4) sh_neg hs by (auto simp: word_sless_alt split: if_splits)
  note bf = bits_of_format_cases[OF pf]
  have mono_bits: "(hdr_bits_per_pixel hdr = 8) = (pixel_format P = Mono8)"
    using sh(5) bf by simp
  have tab: "hdr_bits_per_pixel hdr = 8 \<Longrightarrow> ?table = identity_color_table"
  proof -
    assume b8: "hdr_bits_per_pixel hdr = 8"
    then have m: "pixel_format P = Mono8" using mono_bits by simp
    have nc: "hdr_num_colors hdr = 256" using sh(8) m by simp
    from saved_file_table[OF sh(6) hp[symmetric] b8 m sh(7) nc] b8
    show "?table = identity_color_table" by simp
  qed
  have ct: "hdr_bits_per_pixel hdr = 8 \<Longrightarrow>
               unat (hdr_bitmap_info_header_size hdr + 14)
                 + (if hdr_num_colors hdr = 0 then 256 else unat (hdr_num_colors hdr)) * 4
               \<le> length ?data"
    using ldat sh(6) sh(7) sh(8) mono_bits by simp
  have nf: "\<not> (True \<and> orientation Q = orientation_invalid)" using q(2) ori by simp
  have pfh: "pixel_format (properties_of_header hdr ?table) = pixel_format P"
  proof (cases "hdr_bits_per_pixel hdr = 8")
    case True
    then show ?thesis using tab[OF True] mono_bits check_is_mono8_identity
      by (simp add: properties_of_header_def)
  next
    case False
    then show ?thesis using sh(5) bf pf
      by (cases "pixel_format P") (simp_all add: properties_of_header_def)
  qed
  have oh: "orientation (properties_of_header hdr ?table) = oif"
    using neg sh(2) by (simp add: properties_of_header_def)
  have Peq: "P = requested_layout (properties_of_header hdr ?table) Q True True"
    using pfh sh(3) absh q
    by (cases P) (simp add: requested_layout_def properties_of_header_def Let_def)
  have sz': "file_height hdr * ?SB \<le> unat n" using sz fhgt by simp
  have dat: "unat (hdr_offset hdr) + file_height hdr * file_stride hdr \<le> length ?data"
    using ldat fhgt by simp
  have idx: "hdr_bits_per_pixel hdr = 8 \<Longrightarrow>
                \<not> (check_is_mono8 ?table \<and> check_is_linear_mono8 ?table) \<Longrightarrow>
                \<forall>i<file_height hdr. \<forall>x \<in> set (file_line hdr ?data (unat (hdr_offset hdr)) i).
                   unat x < length ?table"
    using tab check_is_mono8_identity check_is_linear_mono8_identity by simp
  have offeq: "?off = row_offset (orientation P = orientation (properties_of_header hdr ?table))
                      (file_height hdr) ?SB"
    using oh fhgt by simp
  obtain B2 where ld: "load ?fs' (Some name) (Some B0) n Q True True = Some (ok, Some B2, P)"
    and l2: "length B2 = length B0"
    and rows: "\<forall>i<file_height hdr.
                 take ?L (drop (?off i) B2)
                   = decode_line hdr ?table (pixel_format P)
                       (file_line hdr ?data (unat (hdr_offset hdr)) i)"
    and outside: "\<forall>j<length B0.
                 (\<forall>i<file_height hdr. j < ?off i \<or> ?off i + ?L \<le> j)
                 \<longrightarrow> B2 ! j = B0 ! j"
    using load_places_lines[OF f1 f2 len hp sh(1) hm ct refl nf Peq st sz' bl0 dat idx offeq]
    by blast
  have dec: "\<And>bytes. decode_line hdr ?table (pixel_format P) bytes = bytes"
  proof -
    fix bytes
    show "decode_line hdr ?table (pixel_format P) bytes = bytes"
    proof (cases "hdr_bits_per_pixel hdr = 8")
      case True
      then show ?thesis using tab[OF True] mono_bits check_is_linear_mono8_identity
        by (simp add: decode_line_def)
    next
      case False
      then have "hdr_bits_per_pixel hdr > 8" using sh(5) pf by (cases "pixel_format P") simp_all
      then show ?thesis by (simp add: decode_line_def)
    qed
  qed
  have same_rows: "\<forall>i<?H. take ?L (drop (?off i) B2) = take ?L (drop (?off i) B)"
    using rows encoded_file_line[OF sh(6) sh(9) bufl, of _ oif] dec fhgt by simp
  have r1: "\<forall>i<?H. take ?L (drop (i * ?SB) B2) = take ?L (drop (i * ?SB) B)"
  proof (intro allI impI)
    fix i assume i: "i < ?H"
    obtain k where k: "k < ?H" "?off k = i * ?SB"
      using row_offset_mirror[OF i, of ?same ?SB] by blast
    show "take ?L (drop (i * ?SB) B2) = take ?L (drop (i * ?SB) B)"
      using same_rows k by metis
  qed
  have r2: "\<forall>j<length B0. (\<forall>i<?H. j < i * ?SB \<or> i * ?SB + ?L \<le> j) \<longrightarrow> B2 ! j = B0 ! j"
  proof (intro allI impI)
    fix j assume j: "j < length B0" and o: "\<forall>i<?H. j < i * ?SB \<or> i * ?SB + ?L \<le> j"
    have "\<forall>i<?H. j < ?off i \<or> ?off i + ?L \<le> j"
    proof (intro allI impI)
      fix i assume i: "i < ?H"
      obtain k where k: "k < ?H" "?off i = k * ?SB"
        using row_offset_mirror[OF i, of ?same ?SB] by blast
      show "j < ?off i \<or> ?off i + ?L \<le> j" using o k by simp
    qed
    then show "B2 ! j = B0 ! j" using outside j fhgt by simp
  qed
  show ?thesis using sv ld l2 r1 r2 by blast
qed

section \<open>Files with a colour table\<close>

lemma nth_concat_triples:
  "c < length xs \<Longrightarrow>
     concat (map (\<lambda>x. [f1 x, f2 x, f3 x]) xs) ! (3 * c) = f1 (xs ! c)
     \<and> concat (map (\<lambda>x. [f1 x, f2 x, f3 x]) xs) ! (3 * c + 1) = f2 (xs ! c)
     \<and> concat (map (\<lambda>x. [f1 x, f2 x, f3 x]) xs) ! (3 * c + 2) = f3 (xs ! c)"
proof (induction xs arbitrary: c)
  case Nil
  then show ?case by simp
next
  case (Cons a xs)
  show ?case
  proof (cases c)
    case 0
    then show ?thesis by simp
  next
    case (Suc d)
    have e: "3 * Suc d = Suc (Suc (Suc (3 * d)))" by simp
    from Cons.prems Suc have "d < length xs" by simp
    from Cons.IH[OF this] show ?thesis unfolding Suc e by simp
  qed
qed

lemma nth_of_segment:
  assumes "take L (drop p xs) = ys" and "k < length ys"
  shows "xs ! (p + k) = ys ! k"
proof -
  have k: "k < L" "k < length xs - p" using assms by auto
  then have "p \<le> length xs" by simp
  have "ys ! k = take L (drop p xs) ! k" using assms by simp
  also have "\<dots> = drop p xs ! k" using k by simp
  also have "\<dots> = xs ! (p + k)" using \<open>p \<le> length xs\<close> by simp
  finally show ?thesis by simp
qed

lemma decodable_fileD:
  assumes "decodable_file data"
    and "h = parse_bmp_header (take 54 data)"
    and "table = (if hdr_bits_per_pixel h = 8 then file_color_table data else [])"
  shows "54 \<le> length data" "header_verdict h = ok" "sint (hdr_height h) \<noteq> - (2^31)"
    "hdr_bits_per_pixel h = 8 \<Longrightarrow>
               unat (hdr_bitmap_info_header_size h + 14)
                 + (if hdr_num_colors h = 0 then 256 else unat (hdr_num_colors h)) * 4
               \<le> length data"
    "unat (hdr_offset h) + file_height h * file_stride h \<le> length data"
    "hdr_bits_per_pixel h = 8 \<Longrightarrow>
               \<not> (check_is_mono8 table \<and> check_is_linear_mono8 table) \<Longrightarrow>
               \<forall>i<file_height h. \<forall>x \<in> set (file_line h data (unat (hdr_offset h)) i).
                   unat x < length table"
  using assms unfolding decodable_file_def Let_def by blast+

lemma pixel_format_requested_layout:
  "pixel_format (requested_layout P1 Q flp fo) = pixel_format P1"
  by (simp add: requested_layout_def Let_def)

lemma load_image_properties_of_file:
  assumes fl: "files fs name = Some data"
    and lip: "load_image_properties (ifstream_open fs name) bmp_header_zero [] P
                = Some (ok, s, h, table, P')"
  shows "h = parse_bmp_header (take 54 data)"
    "hdr_bits_per_pixel h = 8 \<Longrightarrow> table = file_color_table data"
    "P' = properties_of_header h table"
proof -
  note ok = load_image_properties_ok[OF lip]
  have s0: "in_pos (ifstream_open fs name) = 0" "in_data (ifstream_open fs name) = data"
    using fl by (simp_all add: ifstream_open_def)
  show h: "h = parse_bmp_header (take 54 data)" using ok(2) unfolding s0 by simp
  show "hdr_bits_per_pixel h = 8 \<Longrightarrow> table = file_color_table data"
    using ok(4) h unfolding s0 file_color_table_def Let_def by simp
  show "P' = properties_of_header h table" by (rule ok(6))
qed

lemma indexed_format:
  assumes "hdr_bits_per_pixel h = 8"
  shows "pixel_format (properties_of_header h table)
           = (if \<forall>e \<in> set table. r e = g e \<and> g e = b e then Mono8 else BGR8)"
proof -
  have "check_is_mono8 table = (\<forall>e \<in> set table. r e = g e \<and> g e = b e)"
    unfolding check_is_mono8_iff by auto
  then show ?thesis using assms by (simp add: properties_of_header_def)
qed

lemma indexed_lines_expanded:
  assumes fsys: "files fs name = Some data" "io_limit fs = None"
    and dec: "decodable_file data"
    and h: "h = parse_bmp_header (take 54 data)"
    and bits: "hdr_bits_per_pixel h = 8"
    and tb: "table = file_color_table data"
    and ng: "\<not> (\<forall>e \<in> set table. r e = g e \<and> g e = b e)"
    and nf: "\<not> (fo \<and> orientation Q = orientation_invalid)"
    and P: "P = requested_layout (properties_of_header h table) Q flp fo"
    and st: "buffer_stride P < 2^64"
    and sz: "file_height h * buffer_stride P \<le> unat n"
    and bl: "unat n \<le> length buf"
  shows "\<exists>buf'. load fs (Some name) (Some buf) n Q flp fo = Some (ok, Some buf', P)
           \<and> pixel_format P = BGR8
           \<and> (\<forall>i<file_height h. \<forall>c<unat (width P).
                 buf' ! (row_offset (orientation P = orientation (properties_of_header h table))
                           (file_height h) (buffer_stride P) i + 3 * c)
                   = b (table ! unat (file_line h data (unat (hdr_offset h)) i ! c))
               \<and> buf' ! (row_offset (orientation P = orientation (properties_of_header h table))
                           (file_height h) (buffer_stride P) i + 3 * c + 1)
                   = g (table ! unat (file_line h data (unat (hdr_offset h)) i ! c))
               \<and> buf' ! (row_offset (orientation P = orientation (properties_of_header h table))
                           (file_height h) (buffer_stride P) i + 3 * c + 2)
                   = r (table ! unat (file_line h data (unat (hdr_offset h)) i ! c)))"
proof -
  let ?off = "row_offset (orientation P = orientation (properties_of_header h table))
                (file_height h) (buffer_stride P)"
  have tb': "table = (if hdr_bits_per_pixel h = 8 then file_color_table data else [])"
    using tb bits by simp
  note d = decodable_fileD[OF dec h tb']
  note ok = header_verdict_ok[OF d(2)]
  note wf = file_width_facts[OF ok(1)]
  have pfP: "pixel_format P = BGR8"
    unfolding P pixel_format_requested_layout indexed_format[OF bits] using ng by simp
  have wP: "width P = hdr_width h"
    unfolding P by (simp add: requested_layout_def Let_def properties_of_header_def)
  obtain buf' where ld: "load fs (Some name) (Some buf) n Q flp fo = Some (ok, Some buf', P)"
    and rows: "\<forall>i<file_height h.
                 take (buffer_line_bytes P) (drop (?off i) buf')
                   = decode_line h table (pixel_format P)
                       (file_line h data (unat (hdr_offset h)) i)"
    using load_places_lines[OF fsys d(1) h d(2) d(3) d(4) tb' nf P st sz bl d(5) d(6) refl]
    by blast
  have flb: "file_line_bytes h = unat (width P)"
    unfolding file_line_bytes_def wP wf(3) using bits by simp
  have "\<forall>i<file_height h. \<forall>c<unat (width P).
          buf' ! (?off i + 3 * c) = b (table ! unat (file_line h data (unat (hdr_offset h)) i ! c))
        \<and> buf' ! (?off i + 3 * c + 1) = g (table ! unat (file_line h data (unat (hdr_offset h)) i ! c))
        \<and> buf' ! (?off i + 3 * c + 2) = r (table ! unat (file_line h data (unat (hdr_offset h)) i ! c))"
  proof (intro allI impI)
    fix i c assume i: "i < file_height h" and c: "c < unat (width P)"
    let ?line = "file_line h data (unat (hdr_offset h)) i"
    let ?ys = "concat (map (\<lambda>x. [b (table ! unat x), g (table ! unat x), r (table ! unat x)]) ?line)"
    have "unat (hdr_offset h) + i * file_stride h + file_stride h
            \<le> unat (hdr_offset h) + file_height h * file_stride h"
    proof -
      have "Suc i * file_stride h \<le> file_height h * file_stride h"
        by (rule mult_le_mono1) (use i in simp)
      then show ?thesis by simp
    qed
    moreover have "file_line_bytes h \<le> file_stride h"
      unfolding file_stride_def by (rule round_up4_diff(2))
    ultimately have "unat (hdr_offset h) + i * file_stride h + file_line_bytes h \<le> length data"
      using d(5) by linarith
    then have ll: "length ?line = unat (width P)"
      unfolding file_line_def flb[symmetric] by simp
    have dl: "decode_line h table (pixel_format P) ?line = ?ys"
      unfolding decode_line_def pfP using bits by simp
    have seg: "take (buffer_line_bytes P) (drop (?off i) buf') = ?ys"
      using rows i dl by simp
    have ly: "length ?ys = 3 * unat (width P)"
      unfolding length_concat_triples ll by simp
    have c': "c < length ?line" using c ll by simp
    note t = nth_concat_triples[OF c', of "\<lambda>x. b (table ! unat x)" "\<lambda>x. g (table ! unat x)"
        "\<lambda>x. r (table ! unat x)"]
    have k0: "3 * c < length ?ys" and k1: "3 * c + 1 < length ?ys" and k2: "3 * c + 2 < length ?ys"
      unfolding ly using c by simp_all
    have "buf' ! (?off i + 3 * c) = ?ys ! (3 * c)" by (rule nth_of_segment[OF seg k0])
    moreover have "buf' ! (?off i + (3 * c + 1)) = ?ys ! (3 * c + 1)"
      by (rule nth_of_segment[OF seg k1])
    moreover have "buf' ! (?off i + (3 * c + 2)) = ?ys ! (3 * c + 2)"
      by (rule nth_of_segment[OF seg k2])
    ultimately show "buf' ! (?off i + 3 * c) = b (table ! unat (?line ! c))
        \<and> buf' ! (?off i + 3 * c + 1) = g (table ! unat (?line ! c))
        \<and> buf' ! (?off i + 3 * c + 2) = r (table ! unat (?line ! c))"
      using t by (simp add: add.assoc)
  qed
  with ld pfP show ?thesis by blast
qed

lemmas example_eval =
  example_files_def example_indexed_file_def example_indexed_properties_def
  example_two_line_file_def example_two_line_properties_def image_properties_default_def

lemmas geometry_eval =
  parse_bmp_header_def rd16_def rd32_def le16_def header_verdict_def file_height_def
  file_stride_def file_line_bytes_def round_up4_def file_line_def buffer_stride_def
  buffer_line_bytes_def row_offset_def properties_of_header_def requested_layout_def
  determine_line_padding_def determine_stride_bpp_def byte_per_pixel_in_file_def
  abs_i32_def int_to_size_t_def word_sless_alt

lemmas save_eval =
  save_def save_stream_def save_fill_header_def save_line_def ofstream_open_def
  ostream_write_def ofstream_close_def buffer_row_offset_def buffer_fetch_def
  device_fails_def device_step_def is_ok_def bmp_header_bytes_def sizeof_bmp_header_def
  le16_def le32_def determine_stride_bpp_def determine_line_padding_def
  determine_stride_props_def byte_per_pixel_in_file_def int_to_size_t_def abs_i32_def
  word_sless_alt Let_def


lemma replicate_two: "replicate 2 x = [x, x]"
  by (simp add: numeral_2_eq_2)

lemmas table_eval =
  file_color_table_def resize_table_def color_table_entry_zero_def color_table_bytes_def
  entry_bytes_def color_table_at_def check_is_linear_mono8_def replicate_two

text \<open>
  Claim C8. For a file with 8 bits per pixel, both overloads of \<open>load\<close> that return Ok
  report the pixel format that the colour table of the file decides: Mono8 when every entry
  has red = green = blue, BGR8 when some entry has unequal channels. In the second case a
  buffer load of a decodable file into a buffer that holds the image returns Ok and expands
  every pixel to three bytes: pixel \<open>c\<close> of file line \<open>i\<close> is an index into the table, and
  the blue, green and red of that entry are at the bytes \<open>3 * c\<close>, \<open>3 * c + 1\<close> and
  \<open>3 * c + 2\<close> of the line in the buffer.
\<close>

theorem indexed_file_pixel_format:
  assumes fl: "files fs name = Some data"
    and h: "h = parse_bmp_header (take 54 data)"
    and bits: "hdr_bits_per_pixel h = 8"
    and tb: "table = file_color_table data"
  shows "(load_properties fs (Some name) Pin = Some (ok, Pout) \<longrightarrow>
            pixel_format Pout
              = (if \<forall>e \<in> set table. r e = g e \<and> g e = b e then Mono8 else BGR8))
       \<and> (load fs (Some name) buffer m Qin flp' fo' = Some (ok, buffer', Qout) \<longrightarrow>
            pixel_format Qout
              = (if \<forall>e \<in> set table. r e = g e \<and> g e = b e then Mono8 else BGR8))
       \<and> (io_limit fs = None \<and> decodable_file data
            \<and> \<not> (\<forall>e \<in> set table. r e = g e \<and> g e = b e)
            \<and> \<not> (fo \<and> orientation Q = orientation_invalid)
            \<and> P = requested_layout (properties_of_header h table) Q flp fo
            \<and> buffer_stride P < 2^64
            \<and> file_height h * buffer_stride P \<le> unat n \<and> unat n \<le> length buf
          \<longrightarrow> (\<exists>buf'. load fs (Some name) (Some buf) n Q flp fo = Some (ok, Some buf', P)
                 \<and> pixel_format P = BGR8
                 \<and> (\<forall>i<file_height h. \<forall>c<unat (width P).
                       buf' ! (row_offset (orientation P = orientation (properties_of_header h table))
                                 (file_height h) (buffer_stride P) i + 3 * c)
                         = b (table ! unat (file_line h data (unat (hdr_offset h)) i ! c))
                     \<and> buf' ! (row_offset (orientation P = orientation (properties_of_header h table))
                                 (file_height h) (buffer_stride P) i + 3 * c + 1)
                         = g (table ! unat (file_line h data (unat (hdr_offset h)) i ! c))
                     \<and> buf' ! (row_offset (orientation P = orientation (properties_of_header h table))
                                 (file_height h) (buffer_stride P) i + 3 * c + 2)
                         = r (table ! unat (file_line h data (unat (hdr_offset h)) i ! c)))))"
proof (intro conjI impI)
  assume lp: "load_properties fs (Some name) Pin = Some (ok, Pout)"
  obtain s1 h1 table1 where
    lip: "load_image_properties (ifstream_open fs name) bmp_header_zero [] Pin
            = Some (ok, s1, h1, table1, Pout)"
    using load_properties_ok[OF lp] by auto
  note f = load_image_properties_of_file[OF fl lip]
  have "h1 = h" using f(1) h by simp
  then have "table1 = table" using f(2) bits tb by simp
  then show "pixel_format Pout
      = (if \<forall>e \<in> set table. r e = g e \<and> g e = b e then Mono8 else BGR8)"
    using f(3) \<open>h1 = h\<close> indexed_format[OF bits, of table] by simp
next
  assume ld: "load fs (Some name) buffer m Qin flp' fo' = Some (ok, buffer', Qout)"
  obtain s1 h1 table1 P1 where
    lip: "load_image_properties (ifstream_open fs name) bmp_header_zero [] Qin
            = Some (ok, s1, h1, table1, P1)"
    and q: "Qout = requested_layout P1 Qin flp' fo'"
    using load_ok[OF ld] by auto
  note f = load_image_properties_of_file[OF fl lip]
  have "h1 = h" using f(1) h by simp
  then have "table1 = table" using f(2) bits tb by simp
  then have "pixel_format P1
      = (if \<forall>e \<in> set table. r e = g e \<and> g e = b e then Mono8 else BGR8)"
    using f(3) \<open>h1 = h\<close> indexed_format[OF bits, of table] by simp
  then show "pixel_format Qout
      = (if \<forall>e \<in> set table. r e = g e \<and> g e = b e then Mono8 else BGR8)"
    unfolding q pixel_format_requested_layout .
next
  assume a: "io_limit fs = None \<and> decodable_file data
            \<and> \<not> (\<forall>e \<in> set table. r e = g e \<and> g e = b e)
            \<and> \<not> (fo \<and> orientation Q = orientation_invalid)
            \<and> P = requested_layout (properties_of_header h table) Q flp fo
            \<and> buffer_stride P < 2^64
            \<and> file_height h * buffer_stride P \<le> unat n \<and> unat n \<le> length buf"
  then have a1: "io_limit fs = None" and a2: "decodable_file data"
    and a3: "\<not> (\<forall>e \<in> set table. r e = g e \<and> g e = b e)"
    and a4: "\<not> (fo \<and> orientation Q = orientation_invalid)"
    and a5: "P = requested_layout (properties_of_header h table) Q flp fo"
    and a6: "buffer_stride P < 2^64"
    and a7: "file_height h * buffer_stride P \<le> unat n" and a8: "unat n \<le> length buf"
    by blast+
  show "\<exists>buf'. load fs (Some name) (Some buf) n Q flp fo = Some (ok, Some buf', P)
                 \<and> pixel_format P = BGR8
                 \<and> (\<forall>i<file_height h. \<forall>c<unat (width P).
                       buf' ! (row_offset (orientation P = orientation (properties_of_header h table))
                                 (file_height h) (buffer_stride P) i + 3 * c)
                         = b (table ! unat (file_line h data (unat (hdr_offset h)) i ! c))
                     \<and> buf' ! (row_offset (orientation P = orientation (properties_of_header h table))
                                 (file_height h) (buffer_stride P) i + 3 * c + 1)
                         = g (table ! unat (file_line h data (unat (hdr_offset h)) i ! c))
                     \<and> buf' ! (row_offset (orientation P = orientation (properties_of_header h table))
                                 (file_height h) (buffer_stride P) i + 3 * c + 2)
                         = r (table ! unat (file_line h data (unat (hdr_offset h)) i ! c)))"
    by (rule indexed_lines_expanded[OF fl a1 a2 h bits tb a3 a4 a5 a6 a7 a8])
qed

text \<open>
  Claim C8 at an 8-bit file of two pixels whose colour table has the entries (0, 0, 0) and
  (10, 20, 30): both overloads report BGR8, and the pixel with index 1 becomes 10, 20, 30.
\<close>

theorem indexed_file_pixel_format_witness:
  "files example_files ''indexed.bmp'' = Some example_indexed_file
   \<and> hdr_bits_per_pixel (parse_bmp_header (take 54 example_indexed_file)) = 8
   \<and> file_color_table example_indexed_file
       = [\<lparr>b = 0, g = 0, r = 0, reserved = 0\<rparr>, \<lparr>b = 10, g = 20, r = 30, reserved = 0\<rparr>]
   \<and> decodable_file example_indexed_file
   \<and> load_properties example_files (Some ''indexed.bmp'') image_properties_default
       = Some (ok, example_indexed_properties)
   \<and> load example_files (Some ''indexed.bmp'') (Some [9, 9, 9, 9, 9, 9, 9, 9]) 8
         image_properties_default False False
       = Some (ok, Some [10, 20, 30, 0, 0, 0, 9, 9], example_indexed_properties)
   \<and> pixel_format example_indexed_properties = BGR8"
proof -
  have fl: "files example_files ''indexed.bmp'' = Some example_indexed_file"
    by (simp add: example_files_def)
  have bits: "hdr_bits_per_pixel (parse_bmp_header (take 54 example_indexed_file)) = 8"
    by (simp add: example_indexed_file_def parse_bmp_header_def rd16_def)
  have tb: "file_color_table example_indexed_file
       = [\<lparr>b = 0, g = 0, r = 0, reserved = 0\<rparr>, \<lparr>b = 10, g = 20, r = 30, reserved = 0\<rparr>]"
    by (simp add: file_color_table_def example_indexed_file_def parse_bmp_header_def rd16_def
        rd32_def Let_def)
  have dec: "decodable_file example_indexed_file"
    by (simp add: decodable_file_def Let_def geometry_eval example_eval table_eval)
  have lp: "load_properties example_files (Some ''indexed.bmp'') image_properties_default
       = Some (ok, example_indexed_properties)"
    by (simp add: load_eval example_eval table_eval)
  have ld: "load example_files (Some ''indexed.bmp'') (Some [9, 9, 9, 9, 9, 9, 9, 9]) 8
         image_properties_default False False
       = Some (ok, Some [10, 20, 30, 0, 0, 0, 9, 9], example_indexed_properties)"
    by (simp add: load_eval example_eval table_eval)
  have io: "io_limit example_files = None" by (simp add: example_files_def)
  have P: "example_indexed_properties
      = requested_layout (properties_of_header (parse_bmp_header (take 54 example_indexed_file))
          (file_color_table example_indexed_file)) image_properties_default False False"
    unfolding tb by (simp add: geometry_eval example_eval)
  have st: "buffer_stride example_indexed_properties < 2^64"
    by (simp add: buffer_stride_def buffer_line_bytes_def example_indexed_properties_def)
  have sz: "file_height (parse_bmp_header (take 54 example_indexed_file))
              * buffer_stride example_indexed_properties \<le> unat (8 :: size_t)"
    by (simp add: geometry_eval example_eval)
  have bl: "unat (8 :: size_t) \<le> length [9 :: byte, 9, 9, 9, 9, 9, 9, 9]" by simp
  note t = indexed_file_pixel_format[OF fl refl bits refl,
      where Pin = image_properties_default and Pout = example_indexed_properties
        and Q = image_properties_default and flp = False and fo = False
        and P = example_indexed_properties and n = 8 and buf = "[9, 9, 9, 9, 9, 9, 9, 9]"]
  have ng: "\<not> (\<forall>e \<in> set (file_color_table example_indexed_file). r e = g e \<and> g e = b e)"
    unfolding tb by simp
  have "pixel_format example_indexed_properties = BGR8"
    using t[THEN conjunct1] lp ng by simp
  moreover have "\<exists>buf'. load example_files (Some ''indexed.bmp'') (Some [9, 9, 9, 9, 9, 9, 9, 9]) 8
         image_properties_default False False = Some (ok, Some buf', example_indexed_properties)"
    using t[THEN conjunct2, THEN conjunct2] io dec ng P st sz bl by blast
  ultimately show ?thesis using fl bits tb dec lp ld by blast
qed

section \<open>Line offsets in the buffer\<close>



section \<open>Saving and loading: the buffer\<close>

lemma lines_cover_buffer:
  assumes rows: "\<forall>i<H. take S (drop (i * S) xs) = take S (drop (i * S) ys)"
    and lx: "length xs = H * S" and ly: "length ys = H * S"
  shows "xs = ys"
proof (rule nth_equalityI)
  show "length xs = length ys" using lx ly by simp
next
  fix j assume j: "j < length xs"
  then have jl: "j < H * S" using lx by simp
  then have S0: "0 < S" by (cases S) simp_all
  let ?i = "j div S" and ?k = "j mod S"
  have i: "?i < H" using jl S0 by (simp add: less_mult_imp_div_less)
  have k: "?k < S" using S0 by simp
  have e: "?i * S + ?k = j" by simp
  have "Suc ?i * S \<le> H * S" by (rule mult_le_mono1) (use i in simp)
  then have inb: "?i * S + S \<le> H * S" by simp
  let ?seg = "take S (drop (?i * S) ys)"
  have ls: "length ?seg = S" using inb ly by simp
  have kl: "?k < length ?seg" unfolding ls by (rule k)
  have sx: "take S (drop (?i * S) xs) = ?seg" using rows i by blast
  have "xs ! (?i * S + ?k) = ?seg ! ?k" by (rule nth_of_segment[OF sx kl])
  moreover have "ys ! (?i * S + ?k) = ?seg ! ?k" by (rule nth_of_segment[OF refl kl])
  ultimately show "xs ! j = ys ! j" unfolding e by simp
qed

text \<open>
  Claim C1, amended. For properties with a valid pixel format and orientation, a width and
  a height between 1 and \<open>2 ^ 31 - 1\<close> and a line stride below \<open>2 ^ 64\<close>, a \<open>size\<close>
  that holds the image and buffers of at least \<open>size\<close> bytes, on a device that does not
  fail: \<open>save\<close> returns Ok, the following \<open>load\<close> with both force flags and the line
  padding and orientation of the saved properties returns Ok and the saved properties, the
  pixel bytes of every line of the loaded buffer equal those of the saved buffer, and every
  other byte of the loaded buffer (line padding, bytes after the image) is as it was before
  the load. With no line padding and buffers of exactly the size of the image the loaded
  buffer equals the saved one.
\<close>

theorem save_load_round_trip:
  assumes fsys: "writable fs name" "io_limit fs = None"
    and pf: "pixel_format P \<noteq> pixel_format_invalid"
    and ori: "orientation P \<noteq> orientation_invalid"
    and w: "0 < sint (width P)" and hs: "0 < sint (height P)"
    and st: "buffer_stride P < 2^64"
    and sz: "unat (height P) * buffer_stride P \<le> unat n"
    and bl: "unat n \<le> length B" and bl0: "unat n \<le> length B0"
    and q: "line_padding Q = line_padding P" "orientation Q = orientation P"
  shows "\<exists>fs' B2. save fs (Some name) (Some B) n P force_bottom_up = Some (ok, fs')
          \<and> load fs' (Some name) (Some B0) n Q True True = Some (ok, Some B2, P)
          \<and> length B2 = length B0
          \<and> (\<forall>i<unat (height P).
                take (buffer_line_bytes P) (drop (i * buffer_stride P) B2)
                  = take (buffer_line_bytes P) (drop (i * buffer_stride P) B))
          \<and> (\<forall>j<length B0.
                (\<forall>i<unat (height P).
                   j < i * buffer_stride P \<or> i * buffer_stride P + buffer_line_bytes P \<le> j)
                \<longrightarrow> B2 ! j = B0 ! j)
          \<and> (line_padding P = 0 \<and> length B = unat (height P) * buffer_stride P
               \<and> length B0 = length B \<longrightarrow> B2 = B)"
proof -
  obtain fs' B2 where sv: "save fs (Some name) (Some B) n P force_bottom_up = Some (ok, fs')"
    and ld: "load fs' (Some name) (Some B0) n Q True True = Some (ok, Some B2, P)"
    and len: "length B2 = length B0"
    and rows: "\<forall>i<unat (height P).
                take (buffer_line_bytes P) (drop (i * buffer_stride P) B2)
                  = take (buffer_line_bytes P) (drop (i * buffer_stride P) B)"
    and rest: "\<forall>j<length B0.
                (\<forall>i<unat (height P).
                   j < i * buffer_stride P \<or> i * buffer_stride P + buffer_line_bytes P \<le> j)
                \<longrightarrow> B2 ! j = B0 ! j"
    using round_trip[OF fsys pf ori w hs st sz bl bl0 q, of force_bottom_up] by blast
  have "B2 = B" if a: "line_padding P = 0 \<and> length B = unat (height P) * buffer_stride P
               \<and> length B0 = length B"
  proof -
    have e: "buffer_line_bytes P = buffer_stride P" using a by (simp add: buffer_stride_def)
    show ?thesis
      by (rule lines_cover_buffer[OF rows[unfolded e]]) (use a len in simp_all)
  qed
  with sv ld len rows rest show ?thesis by blast
qed

text \<open>
  Claim C1, amended, at an image of two lines with one byte of line padding: the pixel
  bytes come back, the padding bytes of the loaded buffer stay 9.
\<close>

theorem save_load_round_trip_witness:
  "\<exists>fs' B2. save example_files (Some ''out.bmp'') (Some [4, 5, 6, 7, 1, 2, 3, 8]) 8
                example_two_line_properties True = Some (ok, fs')
     \<and> load fs' (Some ''out.bmp'') (Some [9, 9, 9, 9, 9, 9, 9, 9]) 8
          example_two_line_properties True True
        = Some (ok, Some B2, example_two_line_properties)
     \<and> take 3 B2 = [4, 5, 6] \<and> take 3 (drop 4 B2) = [1, 2, 3]
     \<and> B2 ! 3 = 9 \<and> B2 ! 7 = 9"
proof -
  let ?P = "example_two_line_properties"
  let ?S = "[4, 5, 6, 7, 1, 2, 3, 8] :: byte list"
  let ?Z = "[9, 9, 9, 9, 9, 9, 9, 9] :: byte list"
  have a: "writable example_files ''out.bmp''" "io_limit example_files = None"
    "pixel_format ?P \<noteq> pixel_format_invalid" "orientation ?P \<noteq> orientation_invalid"
    "0 < sint (width ?P)" "0 < sint (height ?P)" "buffer_stride ?P < 2^64"
    "unat (height ?P) * buffer_stride ?P \<le> unat (8 :: size_t)"
    "unat (8 :: size_t) \<le> length ?S" "unat (8 :: size_t) \<le> length ?Z"
    by (simp_all add: geometry_eval example_eval)
  obtain fs' B2 where sv: "save example_files (Some ''out.bmp'') (Some ?S) 8 ?P True = Some (ok, fs')"
    and ld: "load fs' (Some ''out.bmp'') (Some ?Z) 8 ?P True True = Some (ok, Some B2, ?P)"
    and rows: "\<forall>i<unat (height ?P).
                take (buffer_line_bytes ?P) (drop (i * buffer_stride ?P) B2)
                  = take (buffer_line_bytes ?P) (drop (i * buffer_stride ?P) ?S)"
    and rest: "\<forall>j<length ?Z.
                (\<forall>i<unat (height ?P).
                   j < i * buffer_stride ?P \<or> i * buffer_stride ?P + buffer_line_bytes ?P \<le> j)
                \<longrightarrow> B2 ! j = ?Z ! j"
    using save_load_round_trip[OF a refl refl, of True] by blast
  have hP: "unat (height ?P) = 2" "buffer_line_bytes ?P = 3" "buffer_stride ?P = 4"
    by (simp_all add: geometry_eval example_eval)
  have r0: "take 3 B2 = [4, 5, 6]" using rows[rule_format, of 0] unfolding hP by simp
  have r1: "take 3 (drop 4 B2) = [1, 2, 3]" using rows[rule_format, of 1] unfolding hP by simp
  have lt: "\<And>i. i < (2::nat) \<longleftrightarrow> i = 0 \<or> i = 1" by auto
  have o3: "\<forall>i<unat (height ?P).
      3 < i * buffer_stride ?P \<or> i * buffer_stride ?P + buffer_line_bytes ?P \<le> 3"
    unfolding hP lt by auto
  have o7: "\<forall>i<unat (height ?P).
      7 < i * buffer_stride ?P \<or> i * buffer_stride ?P + buffer_line_bytes ?P \<le> 7"
    unfolding hP lt by auto
  have p3: "B2 ! 3 = 9" using rest[rule_format, of 3] o3 by simp
  have p7: "B2 ! 7 = 9" using rest[rule_format, of 7] o7 by simp
  show ?thesis using sv ld r0 r1 p3 p7 by blast
qed

text \<open>
  Claim C1 as stated fails: a 1 x 1 BGR8 image with one byte of line padding is saved from
  the buffer 1, 2, 3, 9 and loaded into a buffer of zeros; the loaded buffer is 1, 2, 3, 0,
  because the padding byte is never written to the file.
\<close>

theorem round_trip_padding_counterexample:
  "\<exists>fs'. save (example_fs None) (Some ''b.bmp'') (Some [1, 2, 3, 9]) 4
              example_bgr8_properties True = Some (ok, fs')
     \<and> load fs' (Some ''b.bmp'') (Some [0, 0, 0, 0]) 4 example_bgr8_properties True True
         = Some (ok, Some [1, 2, 3, 0], example_bgr8_properties)
     \<and> [1, 2, 3, 0] \<noteq> [1, 2, 3, 9 :: byte]"
  by (simp add: save_eval load_eval example_fs_def example_bgr8_properties_def)

section \<open>Height field of a saved file\<close>

text \<open>
  Claim C7 at its failing input: \<open>save\<close> with \<open>force_bottom_up = true\<close> of an image of
  \<open>2 ^ 31 + 1\<close> lines returns Ok and writes a file whose height field (the bytes 22 to
  25, an \<open>int32_t\<close>) is \<open>- 2147483647\<close>: the cast of the \<open>uint32_t\<close> height keeps the bits
  and no check rejects a height above \<open>INT32_MAX\<close>.
\<close>

theorem save_height_overflow:
  "\<exists>written. save (example_fs None) (Some ''tall.bmp'') (Some (replicate 2147483649 0))
                 2147483649 example_tall_properties True
               = Some (ok, (example_fs None)\<lparr>files := (files (example_fs None))
                                                  (''tall.bmp'' \<mapsto> written)\<rparr>)
     \<and> sint (hdr_height (parse_bmp_header (take 54 written))) = - 2147483647
     \<and> take 4 (drop 22 written) = [1, 0, 0, 0x80]"
proof -
  have a1: "writable (example_fs None) ''tall.bmp''" by (simp add: example_fs_def)
  have a2: "io_limit (example_fs None) = None" by (simp add: example_fs_def)
  have a3: "pixel_format example_tall_properties \<noteq> pixel_format_invalid"
    by (simp add: example_tall_properties_def)
  have a4: "0 < sint (width example_tall_properties)" by (simp add: example_tall_properties_def)
  have a5: "height example_tall_properties \<noteq> 0" by (simp add: example_tall_properties_def)
  have a6: "orientation example_tall_properties \<noteq> orientation_invalid"
    by (simp add: example_tall_properties_def)
  have bs: "buffer_stride example_tall_properties = 1"
    by (simp add: buffer_stride_def buffer_line_bytes_def example_tall_properties_def)
  have a7: "buffer_stride example_tall_properties < 2^64" unfolding bs by simp
  have uh: "unat (height example_tall_properties) = 2147483649"
    by (simp add: example_tall_properties_def)
  have a8: "unat (height example_tall_properties) * buffer_stride example_tall_properties
              \<le> unat (2147483649 :: size_t)" unfolding bs uh by simp
  have a9: "unat (2147483649 :: size_t) \<le> length (replicate 2147483649 (0::byte))"
    by (simp only: length_replicate) simp
  obtain hdr oif where fh: "save_fill_header example_tall_properties True = Some (hdr, oif)"
    and sv: "save (example_fs None) (Some ''tall.bmp'') (Some (replicate 2147483649 0))
               2147483649 example_tall_properties True
             = Some (ok, (example_fs None)\<lparr>files := (files (example_fs None))
                 (''tall.bmp'' \<mapsto> encoded_file hdr example_tall_properties oif
                                      (replicate 2147483649 0))\<rparr>)"
    using save_ok[OF a1 a2 a3 a4 a5 a6 a7 a8 a9, of True] by blast
  let ?written = "encoded_file hdr example_tall_properties oif (replicate 2147483649 0)"
  note f = saved_header_facts[OF fh a3 a4 a5]
  have hh: "hdr_height hdr = 0x80000001"
    using f(4) by (simp add: example_tall_properties_def)
  have t54: "take 54 ?written = bmp_header_bytes hdr" by (rule encoded_file_parts(1)[OF f(6)])
  have "parse_bmp_header (take 54 ?written) = hdr"
    unfolding t54 by (rule parse_bmp_header_bytes)
  then have s: "sint (hdr_height (parse_bmp_header (take 54 ?written))) = - 2147483647"
    using hh by simp
  have "take 4 (drop 22 (take 54 ?written)) = [1, 0, 0, 0x80]"
    unfolding t54 by (simp add: bmp_header_bytes_def le16_def le32_def hh)
  then have "take 4 (drop 22 ?written) = [1, 0, 0, 0x80]"
    by (simp add: drop_take)
  with sv s show ?thesis by blast
qed

section \<open>Buffer size in size_t arithmetic\<close>

lemma unat_buffer_size:
  "unat ((ucast (w :: 32 word) * (of_nat k :: size_t) + p) * ucast (h :: 32 word))
     = ((unat w * k + unat p) * unat h) mod 2^64"
proof -
  have "unat ((ucast w * (of_nat k :: size_t) + p) * ucast h)
          = (unat (ucast w * (of_nat k :: size_t) + p) * unat h) mod 2^64"
    by (simp add: unat_word_ariths unat_ucast_32_64)
  also have "unat (ucast w * (of_nat k :: size_t) + p)
          = (unat w * (k mod 2^64) mod 2^64 + unat p) mod 2^64"
    by (simp add: unat_word_ariths unat_ucast_32_64 unat_of_nat)
  also have "\<dots> = (unat w * k + unat p) mod 2^64"
    by (simp add: mod_simps)
  finally show ?thesis by (simp add: mod_simps)
qed

text \<open>
  Claim C3, amended. \<open>compute_buffer_size\<close> always returns (no assertion is reached). It
  returns 0 when the width or the height is 0 or the pixel format is invalid. Otherwise it
  returns \<open>(width * bytes_per_pixel + line_padding) * height\<close> reduced modulo \<open>2 ^ 64\<close>,
  the arithmetic of \<open>size_t\<close>; this is the exact product whenever the product is below
  \<open>2 ^ 64\<close>.
\<close>

theorem compute_buffer_size_value:
  "\<exists>v. map_option fst (compute_buffer_size P) = Some v
     \<and> (if width P = 0 \<or> height P = 0 \<or> pixel_format P = pixel_format_invalid then v = 0
         else unat v = ((unat (width P) * bytes_per_pixel (pixel_format P)
                           + unat (line_padding P)) * unat (height P)) mod 2^64)
     \<and> (width P \<noteq> 0 \<and> height P \<noteq> 0 \<and> pixel_format P \<noteq> pixel_format_invalid
          \<and> (unat (width P) * bytes_per_pixel (pixel_format P) + unat (line_padding P))
               * unat (height P) < 2^64
        \<longrightarrow> unat v = (unat (width P) * bytes_per_pixel (pixel_format P)
                         + unat (line_padding P)) * unat (height P))"
proof (cases "width P = 0 \<or> height P = 0 \<or> pixel_format P = pixel_format_invalid")
  case True
  then have "map_option fst (compute_buffer_size P) = Some 0"
    by (auto simp: compute_buffer_size_def)
  then show ?thesis using True by auto
next
  case False
  let ?v = "(ucast (width P) * of_nat (bytes_per_pixel (pixel_format P)) + line_padding P)
              * ucast (height P) :: size_t"
  have v: "map_option fst (compute_buffer_size P) = Some ?v"
    using False by (simp add: compute_buffer_size_def determine_stride_props_valid)
  have u: "unat ?v = ((unat (width P) * bytes_per_pixel (pixel_format P)
                           + unat (line_padding P)) * unat (height P)) mod 2^64"
    by (rule unat_buffer_size)
  show ?thesis using v u False by auto
qed

text \<open>
  Claim C3, amended, at the 1 x 1 BGR8 properties with one byte of line padding: the size
  is 4, the exact product.
\<close>

theorem compute_buffer_size_value_witness:
  "map_option fst (compute_buffer_size example_bgr8_properties) = Some 4
   \<and> (unat (width example_bgr8_properties) * bytes_per_pixel (pixel_format example_bgr8_properties)
        + unat (line_padding example_bgr8_properties)) * unat (height example_bgr8_properties) = 4"
proof -
  have f: "(unat (width example_bgr8_properties)
              * bytes_per_pixel (pixel_format example_bgr8_properties)
            + unat (line_padding example_bgr8_properties))
           * unat (height example_bgr8_properties) = 4"
    by (simp add: example_bgr8_properties_def)
  have nz: "width example_bgr8_properties \<noteq> 0" "height example_bgr8_properties \<noteq> 0"
    "pixel_format example_bgr8_properties \<noteq> pixel_format_invalid"
    by (simp_all add: example_bgr8_properties_def)
  obtain v where v: "map_option fst (compute_buffer_size example_bgr8_properties) = Some v"
    and u: "unat v = (unat (width example_bgr8_properties)
              * bytes_per_pixel (pixel_format example_bgr8_properties)
            + unat (line_padding example_bgr8_properties))
           * unat (height example_bgr8_properties)"
    using compute_buffer_size_value[of example_bgr8_properties] nz f by auto
  have "unat v = unat (4 :: size_t)" using u f by simp
  then have "v = 4" by (simp only: word_unat_eq_iff)
  then show ?thesis using v f by simp
qed

text \<open>
  Claim C3 as stated fails where the product leaves the range of \<open>size_t\<close>: for a BGRA8
  image of \<open>2 ^ 32 - 1\<close> by \<open>2 ^ 32 - 1\<close> pixels the exact size is 73786976260478468100 and
  the call returns 18446744039349813252; for valid properties of one Mono8 pixel with a
  line padding of \<open>2 ^ 64 - 1\<close> the exact size is \<open>2 ^ 64\<close> and the call returns 0.
\<close>

theorem compute_buffer_size_overflow_counterexample:
  "map_option fst (compute_buffer_size example_huge_properties) = Some 18446744039349813252
   \<and> (unat (width example_huge_properties) * bytes_per_pixel (pixel_format example_huge_properties)
        + unat (line_padding example_huge_properties)) * unat (height example_huge_properties)
      = 73786976260478468100
   \<and> map_option fst (compute_buffer_size example_wrapping_properties) = Some 0
   \<and> (unat (width example_wrapping_properties)
          * bytes_per_pixel (pixel_format example_wrapping_properties)
        + unat (line_padding example_wrapping_properties))
       * unat (height example_wrapping_properties)
      = 18446744073709551616"
  by (simp add: compute_buffer_size_def determine_stride_props_def example_huge_properties_def
      example_wrapping_properties_def)

section \<open>Properties after a failed load\<close>





end
